theory Spec2Isabelle
  imports Main
begin

section \<open>Values that travel along a Deferred chain\<close>

text \<open>
  A Twisted \<open>Failure\<close> carries the exception together with diagnostic data: the traceback
  object, the captured frames and the stack. Only the fields that
  \<open>_cache_result_and_execute_waiters\<close> touches are kept.
\<close>

record failure =
  exc :: string
  tb :: "string option"
  frames :: "string list"
  stack :: "string list option"

text \<open>
  The result held by a Deferred: Python's \<open>None\<close>, some other object, or a \<open>Failure\<close>.
\<close>

datatype 'v pyobj = PyNone | Obj 'v | Fail failure

fun is_failure :: "'v pyobj \<Rightarrow> bool" where
  "is_failure (Fail f) = True"
| "is_failure r = False"

text \<open>
  Modelled from the spec: \<open>Failure.cleanFailure\<close> (twisted.python.failure) is missing from
  the sources; the spec only says that the heavy diagnostic payload is stripped. Here it drops
  the reference to the traceback object.
\<close>

definition cleanFailure :: "failure \<Rightarrow> failure" where
  "cleanFailure f = f\<lparr>tb := None\<rparr>"

text \<open>
  Modelled from the spec: \<open>Deferred.addCallbacks(cb, eb)\<close> (twisted.internet.defer) is
  missing from the sources. A Deferred that fires with a non-failure runs the callback, one
  that fires with a \<open>Failure\<close> runs the errback; an errback of \<open>None\<close> passes the failure
  through. A callback that raises is a function returning \<open>Fail\<close>.
\<close>

definition addCallbacks :: "('v pyobj \<Rightarrow> 'v pyobj) \<Rightarrow> ('v pyobj \<Rightarrow> 'v pyobj) option
    \<Rightarrow> 'v pyobj \<Rightarrow> 'v pyobj" where
  "addCallbacks cb eb r =
     (if is_failure r then (case eb of None \<Rightarrow> r | Some e \<Rightarrow> e r) else cb r)"

section \<open>Requests\<close>

datatype meta_value = MTrue | SequenceExclude nat nat

record 'v request =
  url :: string
  callback :: "('v pyobj \<Rightarrow> 'v pyobj) option"
  errback :: "('v pyobj \<Rightarrow> 'v pyobj) option"
  meta :: "string \<rightharpoonup> meta_value"

section \<open>The pipeline object and its overridable interface\<close>

text \<open>
  The attributes of a \<open>MediaPipeline\<close> instance that the request-processing code reads, and
  the methods a subclass overrides. \<open>download_func\<close> records whether a download function was
  given. A hook that raises returns \<open>Inl\<close> (or \<open>Fail\<close> where its result enters a Deferred
  chain). \<open>request_fingerprint\<close> (scrapy.utils.request) is missing from the sources and is
  taken as a parameter. \<open>media_to_download\<close> and the download itself are asynchronous: their
  results arrive as events, see \<open>event\<close> below.

  \<open>get_media_requests\<close> returns \<open>None\<close>, one request, or an iterable of requests, which
  may be a generator: \<open>ArgIter ys e\<close> yields the request objects \<open>ys\<close> in turn and then stops
  (\<open>e = None\<close>) or raises (\<open>e = Some f\<close>). Each object yielded is given as its identity and the
  state it has when the iteration starts; the same identity stands for the same object, and
  where an identity comes with two states the first one counts. The iteration is finite: a
  generator that never stops would keep \<open>process_item\<close> from returning.
\<close>

datatype 'r arg = ArgNone | ArgOne 'r | ArgIter "(nat \<times> 'r) list" "failure option"

record ('k, 'v, 'i) MediaPipeline =
  download_func :: bool
  handle_httpstatus_list :: "meta_value option"
  request_fingerprint :: "'v request \<Rightarrow> 'k"
  get_media_requests :: "'i \<Rightarrow> failure + 'v request arg"
  media_downloaded :: "'v pyobj \<Rightarrow> 'v request \<Rightarrow> 'v pyobj"
  media_failed :: "'v pyobj \<Rightarrow> 'v request \<Rightarrow> 'v pyobj"
  item_completed :: "(bool \<times> 'v pyobj) list \<Rightarrow> 'i \<Rightarrow> failure + 'i"

definition handle_statuses :: "bool \<Rightarrow> meta_value option" where
  "handle_statuses allow_redirects =
     (if allow_redirects then Some (SequenceExclude 300 400) else None)"

text \<open>
  Modelled from the spec: \<open>arg_to_iter\<close> (scrapy.utils.misc) is missing from the sources;
  the hook may return nothing, one reference or a sequence of references. The result is what
  the iteration yields and the exception it ends with, if any.
\<close>

fun arg_to_iter :: "'r arg \<Rightarrow> (nat \<times> 'r) list \<times> failure option" where
  "arg_to_iter ArgNone = ([], None)"
| "arg_to_iter (ArgOne r) = ([(0, r)], None)"
| "arg_to_iter (ArgIter ys e) = (ys, e)"

section \<open>Session state\<close>

text \<open>
  A waiter: the Deferred \<open>wad\<close> built by \<open>Deferred().addCallbacks(cb, eb)\<close>. \<open>wad_id\<close> is
  the identity of the object.
\<close>

record 'v wad =
  wad_id :: nat
  wad_cb :: "'v pyobj \<Rightarrow> 'v pyobj"
  wad_eb :: "('v pyobj \<Rightarrow> 'v pyobj) option"

record ('k, 'v) SpiderInfo =
  spider :: string
  downloading :: "'k set"
  downloaded :: "'k \<rightharpoonup> 'v pyobj"
  waiting :: "'k \<rightharpoonup> 'v wad list"

definition SpiderInfo_init :: "string \<Rightarrow> ('k, 'v) SpiderInfo" where
  "SpiderInfo_init sp =
     \<lparr>spider = sp, downloading = {}, downloaded = Map.empty, waiting = Map.empty\<rparr>"

text \<open>
  The Deferred \<open>dfd\<close> that \<open>_process_request\<close> builds for a request it starts to fetch. It
  waits first for the result of \<open>media_to_download\<close>, then (when that is \<open>None\<close>) for the
  download; \<open>c_wad\<close> is the waiter its last callback returns. \<open>c_hook\<close> records what the
  \<open>media_to_download\<close> Deferred fired with. A chain is \<open>Stalled\<close> when its last callback
  returned a waiter that has not fired.
\<close>

datatype stage = AwaitHook | AwaitDownload | Finished | Stalled

record ('k, 'v) chain =
  c_fp :: 'k
  c_request :: "'v request"
  c_wad :: nat
  c_stage :: stage
  c_hook :: "'v pyobj option"

text \<open>
  What \<open>_process_request\<close> returns: the Deferred of
  \<open>defer_result(cached).addCallbacks(cb, eb)\<close>, which fires with the cached result passed
  through the caller's callbacks (\<open>Fired\<close>), the waiter \<open>wad\<close> itself (\<open>WadD\<close>), or the
  chain \<open>dfd\<close> (\<open>ChainD\<close>). Modelled from the spec: \<open>defer_result\<close> (scrapy.utils.defer)
  is missing from the sources; per the spec it gives a Deferred that fires with the cached
  value, so its outcome is recorded as already there.
\<close>

datatype 'v deferred = Fired "'v pyobj" | WadD nat | ChainD nat

text \<open>
  Modelled from the spec: \<open>DeferredList\<close> (twisted.internet.defer) is missing from the
  sources; per the spec it is a barrier over the Deferreds of one item that fires once, when
  every one of them has fired, with the ordered list of (ok, outcome) pairs. A slot waits for
  a waiter or for a chain, or holds its entry of the result list.
\<close>

datatype source = OnWad nat | OnDfd nat

datatype 'v slot = Pending source | Filled bool "'v pyobj"

record ('v, 'i) deferred_list =
  dl_id :: nat
  dl_item :: 'i
  dl_slots :: "'v slot list"
  dl_called :: "(failure + 'i) option"

text \<open>
  One processing session: the \<open>SpiderInfo\<close> object, the Deferreds that refer to it, and
  a trace of what happened. \<open>submits\<close> lists the fingerprint of every \<open>_process_request\<close>
  call, \<open>mtd_calls\<close> and \<open>download_calls\<close> the calls of \<open>media_to_download\<close> and of the
  download (fingerprint and request passed), \<open>fired\<close> the waiters fired (fingerprint, waiter,
  the result given to it and the result after the caller's callbacks), \<open>completed\<close> the calls
  of \<open>item_completed\<close>, \<open>errors_logged\<close> the calls of the chain's logging errback.
\<close>

record ('k, 'v, 'i) session =
  info :: "('k, 'v) SpiderInfo"
  next_wad :: nat
  wad_result :: "nat \<rightharpoonup> 'v pyobj"
  chains :: "('k, 'v) chain list"
  dlists :: "('v, 'i) deferred_list list"
  submits :: "'k list"
  mtd_calls :: "('k \<times> 'v request) list"
  download_calls :: "('k \<times> 'v request) list"
  fired :: "('k \<times> nat \<times> 'v pyobj \<times> 'v pyobj) list"
  completed :: "(nat \<times> (bool \<times> 'v pyobj) list) list"
  errors_logged :: nat

definition new_session :: "string \<Rightarrow> ('k, 'v, 'i) session" where
  "new_session sp =
     \<lparr>info = SpiderInfo_init sp, next_wad = 0, wad_result = Map.empty, chains = [],
      dlists = [], submits = [], mtd_calls = [], download_calls = [], fired = [],
      completed = [], errors_logged = 0\<rparr>"

section \<open>The item barrier\<close>

fun slot_of :: "'v deferred \<Rightarrow> 'v slot" where
  "slot_of (Fired r) = Filled (\<not> is_failure r) r"
| "slot_of (WadD n) = Pending (OnWad n)"
| "slot_of (ChainD n) = Pending (OnDfd n)"

fun is_filled :: "'v slot \<Rightarrow> bool" where
  "is_filled (Filled ok r) = True"
| "is_filled (Pending src) = False"

fun slot_entry :: "'v slot \<Rightarrow> bool \<times> 'v pyobj" where
  "slot_entry (Filled ok r) = (ok, r)"
| "slot_entry (Pending src) = (False, PyNone)"

definition fill :: "source \<Rightarrow> 'v pyobj \<Rightarrow> 'v slot \<Rightarrow> 'v slot" where
  "fill src r sl = (if sl = Pending src then Filled (\<not> is_failure r) r else sl)"

definition cbDeferred :: "('k, 'v, 'i) MediaPipeline \<Rightarrow> source \<Rightarrow> 'v pyobj
    \<Rightarrow> ('v, 'i) deferred_list
    \<Rightarrow> ('v, 'i) deferred_list \<times> (nat \<times> (bool \<times> 'v pyobj) list) list" where
  "cbDeferred P src r dl =
     (if Pending src \<in> set (dl_slots dl) then
        (let slots = map (fill src r) (dl_slots dl);
             dl1 = dl\<lparr>dl_slots := slots\<rparr>
         in if list_all is_filled slots \<and> dl_called dl = None
            then (dl1\<lparr>dl_called := Some (item_completed P (map slot_entry slots) (dl_item dl))\<rparr>,
                  [(dl_id dl, map slot_entry slots)])
            else (dl1, []))
      else (dl, []))"

fun cbDeferred_all :: "('k, 'v, 'i) MediaPipeline \<Rightarrow> source \<Rightarrow> 'v pyobj
    \<Rightarrow> ('v, 'i) deferred_list list
    \<Rightarrow> ('v, 'i) deferred_list list \<times> (nat \<times> (bool \<times> 'v pyobj) list) list" where
  "cbDeferred_all P src r [] = ([], [])"
| "cbDeferred_all P src r (dl # dls) =
     (let (dl1, log1) = cbDeferred P src r dl;
          (dls1, log2) = cbDeferred_all P src r dls
      in (dl1 # dls1, log1 @ log2))"

definition notify :: "('k, 'v, 'i) MediaPipeline \<Rightarrow> source \<Rightarrow> 'v pyobj
    \<Rightarrow> ('k, 'v, 'i) session \<Rightarrow> ('k, 'v, 'i) session" where
  "notify P src r s =
     (let (dls, log) = cbDeferred_all P src r (dlists s)
      in s\<lparr>dlists := dls, completed := completed s @ log\<rparr>)"

definition DeferredList :: "('k, 'v, 'i) MediaPipeline \<Rightarrow> 'i \<Rightarrow> 'v deferred list
    \<Rightarrow> ('k, 'v, 'i) session \<Rightarrow> ('k, 'v, 'i) session" where
  "DeferredList P item dlist s =
     (let slots = map slot_of dlist;
          n = length (dlists s);
          dl = \<lparr>dl_id = n, dl_item = item, dl_slots = slots, dl_called = None\<rparr>
      in if list_all is_filled slots
         then s\<lparr>dlists := dlists s @
                  [dl\<lparr>dl_called := Some (item_completed P (map slot_entry slots) item)\<rparr>],
                completed := completed s @ [(n, map slot_entry slots)]\<rparr>
         else s\<lparr>dlists := dlists s @ [dl]\<rparr>)"

section \<open>Request processing\<close>

text \<open>
  \<open>_process_request\<close>. The request object is mutated, so the updated request is returned
  with the Deferred and the session. \<open>media_to_download\<close> is called inside (through
  \<open>mustbe_deferred\<close>); its result reaches the chain later, as an event.
\<close>

definition process_request :: "('k, 'v, 'i) MediaPipeline \<Rightarrow> 'v request
    \<Rightarrow> ('k, 'v, 'i) session \<Rightarrow> 'v request \<times> 'v deferred \<times> ('k, 'v, 'i) session" where
  "process_request P request s0 =
     (let fp = request_fingerprint P request;
          cb = (case callback request of Some c \<Rightarrow> c | None \<Rightarrow> (\<lambda>x. x));
          eb = errback request;
          request = request\<lparr>callback := None, errback := None\<rparr>;
          s = s0\<lparr>submits := submits s0 @ [fp]\<rparr>
      in case downloaded (info s) fp of
           Some cached \<Rightarrow> (request, Fired (addCallbacks cb eb cached), s)
         | None \<Rightarrow>
            (let wad = \<lparr>wad_id = next_wad s, wad_cb = cb, wad_eb = eb\<rparr>;
                 queue = (case waiting (info s) fp of None \<Rightarrow> [] | Some ws \<Rightarrow> ws);
                 s = s\<lparr>next_wad := next_wad s + 1,
                       info := (info s)\<lparr>waiting := (waiting (info s))(fp \<mapsto> queue @ [wad])\<rparr>\<rparr>
             in if fp \<in> downloading (info s) then (request, WadD (wad_id wad), s)
                else
                  (let s = s\<lparr>info := (info s)\<lparr>downloading := insert fp (downloading (info s))\<rparr>\<rparr>;
                       s = s\<lparr>mtd_calls := mtd_calls s @ [(fp, request)]\<rparr>;
                       dfd = length (chains s);
                       s = s\<lparr>chains := chains s @
                              [\<lparr>c_fp = fp, c_request = request, c_wad = wad_id wad,
                                c_stage = AwaitHook, c_hook = None\<rparr>]\<rparr>
                   in (request, ChainD dfd, s))))"

definition modify_media_request :: "('k, 'v, 'i) MediaPipeline \<Rightarrow> 'v request \<Rightarrow> 'v request" where
  "modify_media_request P request =
     (case handle_httpstatus_list P of
        Some l \<Rightarrow> request\<lparr>meta := (meta request)(''handle_httpstatus_list'' \<mapsto> l)\<rparr>
      | None \<Rightarrow> request\<lparr>meta := (meta request)(''handle_httpstatus_all'' \<mapsto> MTrue)\<rparr>)"

text \<open>
  \<open>_check_media_to_download\<close>: a result other than \<open>None\<close> is returned as it is (\<open>Inl\<close>);
  otherwise the download is started and the request whose download is awaited is returned
  (\<open>Inr\<close>).
\<close>

definition check_media_to_download :: "('k, 'v, 'i) MediaPipeline \<Rightarrow> 'v pyobj \<Rightarrow> 'k
    \<Rightarrow> 'v request \<Rightarrow> ('k, 'v, 'i) session
    \<Rightarrow> ('v pyobj + 'v request) \<times> ('k, 'v, 'i) session" where
  "check_media_to_download P result fp request s =
     (if result \<noteq> PyNone then (Inl result, s)
      else if download_func P
        then (Inr request, s\<lparr>download_calls := download_calls s @ [(fp, request)]\<rparr>)
        else (let request = modify_media_request P request
              in (Inr request, s\<lparr>download_calls := download_calls s @ [(fp, request)]\<rparr>)))"

text \<open>
  One turn of the loop \<open>for wad in info.waiting.pop(fp): defer_result(result).chainDeferred(wad)\<close>.
  Modelled from the spec: \<open>defer_result\<close> (scrapy.utils.defer) and \<open>chainDeferred\<close> are
  missing from the sources; per the spec each waiter is invoked with the outcome, in the order
  of the loop.
\<close>

definition fire_wad :: "('k, 'v, 'i) MediaPipeline \<Rightarrow> 'k \<Rightarrow> 'v pyobj \<Rightarrow> 'v wad
    \<Rightarrow> ('k, 'v, 'i) session \<Rightarrow> ('k, 'v, 'i) session" where
  "fire_wad P fp result wad s =
     (let r = addCallbacks (wad_cb wad) (wad_eb wad) result;
          s = s\<lparr>wad_result := (wad_result s)(wad_id wad \<mapsto> r),
                fired := fired s @ [(fp, wad_id wad, result, r)]\<rparr>
      in notify P (OnWad (wad_id wad)) r s)"

fun fire_wads :: "('k, 'v, 'i) MediaPipeline \<Rightarrow> 'k \<Rightarrow> 'v pyobj \<Rightarrow> 'v wad list
    \<Rightarrow> ('k, 'v, 'i) session \<Rightarrow> ('k, 'v, 'i) session" where
  "fire_wads P fp result [] s = s"
| "fire_wads P fp result (wad # wads) s = fire_wads P fp result wads (fire_wad P fp result wad s)"

definition sanitize :: "'v pyobj \<Rightarrow> 'v pyobj" where
  "sanitize result =
     (case result of
        Fail f \<Rightarrow> Fail ((cleanFailure f)\<lparr>frames := [], stack := None\<rparr>)
      | _ \<Rightarrow> result)"

text \<open>
  \<open>_cache_result_and_execute_waiters\<close>. The first component tells whether a \<open>KeyError\<close>
  was raised (by \<open>set.remove\<close> or by \<open>pop\<close>); the session is as the code left it then.
\<close>

definition cache_result_and_execute_waiters :: "('k, 'v, 'i) MediaPipeline \<Rightarrow> 'v pyobj \<Rightarrow> 'k
    \<Rightarrow> ('k, 'v, 'i) session \<Rightarrow> bool \<times> ('k, 'v, 'i) session" where
  "cache_result_and_execute_waiters P result0 fp s =
     (let result = sanitize result0
      in if fp \<notin> downloading (info s) then (True, s)
         else
           (let s = s\<lparr>info := (info s)\<lparr>downloading := downloading (info s) - {fp}\<rparr>\<rparr>;
                s = s\<lparr>info := (info s)\<lparr>downloaded := (downloaded (info s))(fp \<mapsto> result)\<rparr>\<rparr>
            in case waiting (info s) fp of
                 None \<Rightarrow> (True, s)
               | Some wads \<Rightarrow>
                   (False, fire_wads P fp result wads
                      (s\<lparr>info := (info s)\<lparr>waiting := (waiting (info s))(fp := None)\<rparr>\<rparr>))))"

text \<open>
  The tail of the chain \<open>dfd\<close> of \<open>_process_request\<close>, run with the result of the fetch:
  cache and fan out, log an exception of that step, then return \<open>wad\<close>, whose result
  becomes the result of \<open>dfd\<close>.
\<close>

definition chain_finish :: "('k, 'v, 'i) MediaPipeline \<Rightarrow> nat \<Rightarrow> 'v pyobj
    \<Rightarrow> ('k, 'v, 'i) session \<Rightarrow> ('k, 'v, 'i) session" where
  "chain_finish P n result s =
     (let c = chains s ! n;
          (raised, s) = cache_result_and_execute_waiters P result (c_fp c) s;
          s = (if raised then s\<lparr>errors_logged := errors_logged s + 1\<rparr> else s)
      in case wad_result s (c_wad c) of
           None \<Rightarrow> s\<lparr>chains := (chains s)[n := (chains s ! n)\<lparr>c_stage := Stalled\<rparr>]\<rparr>
         | Some r \<Rightarrow>
             (let s = notify P (OnDfd n) r s
              in s\<lparr>chains := (chains s)[n := (chains s ! n)\<lparr>c_stage := Finished\<rparr>]\<rparr>))"

section \<open>Item processing\<close>

text \<open>
  The list comprehension \<open>[self._process_request(r, info) for r in requests]\<close>, over the
  objects that the iteration yields. \<open>_process_request\<close> changes the request object it is
  given, so an object that is yielded again is received as the earlier call left it:
  \<open>objs\<close> holds the state of the objects passed so far.
\<close>

fun submit_all :: "('k, 'v, 'i) MediaPipeline \<Rightarrow> (nat \<times> 'v request) list
    \<Rightarrow> (nat \<rightharpoonup> 'v request) \<Rightarrow> ('k, 'v, 'i) session
    \<Rightarrow> 'v deferred list \<times> ('k, 'v, 'i) session" where
  "submit_all P [] objs s = ([], s)"
| "submit_all P (y # ys) objs s =
     (let r = (case objs (fst y) of None \<Rightarrow> snd y | Some r0 \<Rightarrow> r0);
          (r1, d, s1) = process_request P r s;
          (ds, s2) = submit_all P ys (objs(fst y \<mapsto> r1)) s1
      in (d # ds, s2))"

text \<open>
  \<open>process_item\<close>. An exception of \<open>get_media_requests\<close>, or of the iteration of what it
  returned, leaves the function: the first component is the exception raised, if any, the
  second the session as the code left it. When the iteration raises, the requests yielded
  before have been passed to \<open>_process_request\<close> and no \<open>DeferredList\<close> is built.
\<close>

definition process_item :: "('k, 'v, 'i) MediaPipeline \<Rightarrow> 'i \<Rightarrow> ('k, 'v, 'i) session
    \<Rightarrow> failure option \<times> ('k, 'v, 'i) session" where
  "process_item P item s =
     (case get_media_requests P item of
        Inl f \<Rightarrow> (Some f, s)
      | Inr a \<Rightarrow>
          (let requests = arg_to_iter a;
               (dlist, s) = submit_all P (fst requests) Map.empty s
           in case snd requests of
                Some f \<Rightarrow> (Some f, s)
              | None \<Rightarrow> (None, DeferredList P item dlist s)))"

section \<open>Events of a session\<close>

text \<open>
  What can happen in a session: an item is processed, a request is submitted directly, the
  Deferred of \<open>media_to_download\<close> of chain \<open>n\<close> fires with a result, or the download of
  chain \<open>n\<close> fires with a result. An event that addresses a chain which is not waiting for
  it does not happen: the session stays as it is.
\<close>

datatype ('v, 'i) event =
    ProcessItem 'i
  | Submit "'v request"
  | PreFetched nat "'v pyobj"
  | Downloaded nat "'v pyobj"

definition prefetched :: "('k, 'v, 'i) MediaPipeline \<Rightarrow> nat \<Rightarrow> 'v pyobj
    \<Rightarrow> ('k, 'v, 'i) session \<Rightarrow> ('k, 'v, 'i) session" where
  "prefetched P n r s0 =
     (let c = (chains s0 ! n)\<lparr>c_hook := Some r\<rparr>;
          s = s0\<lparr>chains := (chains s0)[n := c]\<rparr>
      in if is_failure r then chain_finish P n r s
         else (case check_media_to_download P r (c_fp c) (c_request c) s of
                 (Inl result, s) \<Rightarrow> chain_finish P n result s
               | (Inr request, s) \<Rightarrow>
                   s\<lparr>chains := (chains s)[n := c\<lparr>c_request := request,
                                                  c_stage := AwaitDownload\<rparr>]\<rparr>))"

definition download_done :: "('k, 'v, 'i) MediaPipeline \<Rightarrow> nat \<Rightarrow> 'v pyobj
    \<Rightarrow> ('k, 'v, 'i) session \<Rightarrow> ('k, 'v, 'i) session" where
  "download_done P n r s =
     (let c = chains s ! n;
          result = (if is_failure r then media_failed P r (c_request c)
                    else media_downloaded P r (c_request c))
      in chain_finish P n result s)"

fun step :: "('k, 'v, 'i) MediaPipeline \<Rightarrow> ('k, 'v, 'i) session \<Rightarrow> ('v, 'i) event
    \<Rightarrow> ('k, 'v, 'i) session" where
  "step P s (ProcessItem item) = snd (process_item P item s)"
| "step P s (Submit request) = snd (snd (process_request P request s))"
| "step P s (PreFetched n r) =
     (if n < length (chains s) \<and> c_stage (chains s ! n) = AwaitHook
      then prefetched P n r s else s)"
| "step P s (Downloaded n r) =
     (if n < length (chains s) \<and> c_stage (chains s ! n) = AwaitDownload
      then download_done P n r s else s)"

definition run :: "('k, 'v, 'i) MediaPipeline \<Rightarrow> ('v, 'i) event list \<Rightarrow> ('k, 'v, 'i) session
    \<Rightarrow> ('k, 'v, 'i) session" where
  "run P evs s = foldl (step P) s evs"

section \<open>The pipeline across sessions\<close>

text \<open>
  \<open>open_spider\<close> sets \<open>self.spiderinfo\<close> to a new \<open>SpiderInfo\<close>. The object it replaces
  is still held by the Deferreds that were built with it, so the pipeline state keeps every
  session made so far, each with its own Deferreds, and tells which one is current.
  \<open>process_item\<close> works on the current session and fails when none was opened; a
  Deferred of any session can fire (\<open>Fires j e\<close>, for \<open>e\<close> the firing of a chain of
  session \<open>j\<close>).
\<close>

record ('k, 'v, 'i) pipeline_state =
  sessions :: "('k, 'v, 'i) session list"
  spiderinfo :: "nat option"

definition open_spider :: "string \<Rightarrow> ('k, 'v, 'i) pipeline_state \<Rightarrow> ('k, 'v, 'i) pipeline_state" where
  "open_spider sp w =
     w\<lparr>sessions := sessions w @ [new_session sp], spiderinfo := Some (length (sessions w))\<rparr>"

datatype ('v, 'i) pipeline_event =
    OpenSpider string
  | Item 'i
  | Fires nat "('v, 'i) event"

fun is_firing :: "('v, 'i) event \<Rightarrow> bool" where
  "is_firing (PreFetched n r) = True"
| "is_firing (Downloaded n r) = True"
| "is_firing e = False"

fun pipeline_step :: "('k, 'v, 'i) MediaPipeline \<Rightarrow> ('k, 'v, 'i) pipeline_state
    \<Rightarrow> ('v, 'i) pipeline_event \<Rightarrow> ('k, 'v, 'i) pipeline_state" where
  "pipeline_step P w (OpenSpider sp) = open_spider sp w"
| "pipeline_step P w (Item item) =
     (case spiderinfo w of
        None \<Rightarrow> w
      | Some j \<Rightarrow> w\<lparr>sessions := (sessions w)[j := step P (sessions w ! j) (ProcessItem item)]\<rparr>)"
| "pipeline_step P w (Fires j e) =
     (if j < length (sessions w) \<and> is_firing e
      then w\<lparr>sessions := (sessions w)[j := step P (sessions w ! j) e]\<rparr> else w)"

definition pipeline_run :: "('k, 'v, 'i) MediaPipeline \<Rightarrow> ('v, 'i) pipeline_event list
    \<Rightarrow> ('k, 'v, 'i) pipeline_state \<Rightarrow> ('k, 'v, 'i) pipeline_state" where
  "pipeline_run P evs w = foldl (pipeline_step P) w evs"

section \<open>Invariants and auxiliary notions\<close>

text \<open>
  A chain is pending while it waits for \<open>media_to_download\<close> or for the download.
  \<open>finish_stage\<close> is the stage \<open>chain_finish\<close> leaves chain \<open>n\<close> in, \<open>hooked\<close>
  the session once the result of \<open>media_to_download\<close> is noted on the chain,
  \<open>download_request\<close> the request the download is called with, and \<open>fanout\<close> what firing
  a list of waiters adds to the trace.
\<close>

definition pending :: "('k, 'v) chain \<Rightarrow> bool" where
  "pending c = (c_stage c = AwaitHook \<or> c_stage c = AwaitDownload)"

definition finish_stage :: "('k, 'v, 'i) MediaPipeline \<Rightarrow> nat \<Rightarrow> 'v pyobj \<Rightarrow> ('k, 'v, 'i) session \<Rightarrow> stage" where
  "finish_stage P n r s =
     (case wad_result (snd (cache_result_and_execute_waiters P r (c_fp (chains s ! n)) s))
             (c_wad (chains s ! n)) of None \<Rightarrow> Stalled | Some x \<Rightarrow> Finished)"

definition hooked :: "nat \<Rightarrow> 'v pyobj \<Rightarrow> ('k, 'v, 'i) session \<Rightarrow> ('k, 'v, 'i) session" where
  "hooked n r s = s\<lparr>chains := (chains s)[n := (chains s ! n)\<lparr>c_hook := Some r\<rparr>]\<rparr>"

definition download_request :: "('k, 'v, 'i) MediaPipeline \<Rightarrow> 'v request \<Rightarrow> 'v request" where
  "download_request P q = (if download_func P then q else modify_media_request P q)"

definition fanout :: "'k \<Rightarrow> 'v pyobj \<Rightarrow> 'v wad list \<Rightarrow> ('k \<times> nat \<times> 'v pyobj \<times> 'v pyobj) list" where
  "fanout fp result ws =
     map (\<lambda>w. (fp, wad_id w, result, addCallbacks (wad_cb w) (wad_eb w) result)) ws"

text \<open>
  The core invariant of a session: \<open>downloading\<close> and \<open>downloaded\<close> are disjoint; the
  fingerprints with a waiter list are those in \<open>downloading\<close>; no two chains have the same
  fingerprint; the fingerprint of a pending chain is in \<open>downloading\<close>, that of any other
  chain in \<open>downloaded\<close>, and every fingerprint in one of the two has a chain;
  \<open>media_to_download\<close> was called once per chain; the submitted fingerprints are those of
  the chains.
\<close>

definition inv_core :: "('k, 'v, 'i) session \<Rightarrow> bool" where
  "inv_core s =
     (downloading (info s) \<inter> dom (downloaded (info s)) = {} \<and>
      dom (waiting (info s)) = downloading (info s) \<and>
      distinct (map c_fp (chains s)) \<and>
      (\<forall>m < length (chains s).
          if pending (chains s ! m) then c_fp (chains s ! m) \<in> downloading (info s)
          else c_fp (chains s ! m) \<in> dom (downloaded (info s))) \<and>
      downloading (info s) \<union> dom (downloaded (info s)) = set (map c_fp (chains s)) \<and>
      map fst (mtd_calls s) = map c_fp (chains s) \<and>
      set (submits s) = set (map c_fp (chains s)))"

text \<open>
  Further invariants: every waiter fired was given the result cached for its fingerprint;
  every cached failure is stripped; every request held by a chain or passed to a hook is
  detached from the caller's callbacks; the download was called once for exactly the chains
  whose \<open>media_to_download\<close> gave \<open>None\<close>. \<open>settled k r s s'\<close> says that from \<open>s\<close>
  to \<open>s'\<close> the cached result \<open>r\<close> of \<open>k\<close> stayed and nothing was fetched for \<open>k\<close>.
\<close>

definition inv_fired :: "('k, 'v, 'i) session \<Rightarrow> bool" where
  "inv_fired s = (\<forall>(k, w, out, res) \<in> set (fired s). downloaded (info s) k = Some out)"

definition inv_clean :: "('k, 'v, 'i) session \<Rightarrow> bool" where
  "inv_clean s =
     (\<forall>k f. downloaded (info s) k = Some (Fail f) \<longrightarrow> frames f = [] \<and> stack f = None)"

definition detached :: "'v request \<Rightarrow> bool" where
  "detached q = (callback q = None \<and> errback q = None)"

definition inv_req :: "('k, 'v, 'i) session \<Rightarrow> bool" where
  "inv_req s =
     ((\<forall>c \<in> set (chains s). detached (c_request c)) \<and>
      (\<forall>x \<in> set (mtd_calls s). detached (snd x)) \<and>
      (\<forall>x \<in> set (download_calls s). detached (snd x)))"

definition inv_dl :: "('k, 'v, 'i) session \<Rightarrow> bool" where
  "inv_dl s =
     (distinct (map fst (download_calls s)) \<and>
      (\<forall>k. k \<in> set (map fst (download_calls s)) \<longleftrightarrow>
           (\<exists>m < length (chains s). c_fp (chains s ! m) = k \<and> c_hook (chains s ! m) = Some PyNone)) \<and>
      (\<forall>m < length (chains s). c_stage (chains s ! m) = AwaitHook \<longrightarrow> c_hook (chains s ! m) = None))"

definition settled :: "'k \<Rightarrow> 'v pyobj \<Rightarrow> ('k, 'v, 'i) session \<Rightarrow> ('k, 'v, 'i) session \<Rightarrow> bool" where
  "settled k r s s' =
     (downloaded (info s') k = Some r \<and>
      count_list (map fst (mtd_calls s')) k = count_list (map fst (mtd_calls s)) k \<and>
      count_list (map fst (download_calls s')) k = count_list (map fst (download_calls s)) k)"

text \<open>
  The barriers: each is known by its place in the list; it was fired exactly when all its
  slots are filled; \<open>item_completed\<close> was logged at most once per barrier, only for
  barriers with all slots filled and with the entries of those slots, and for every such
  barrier.
\<close>

definition inv_barrier :: "('k, 'v, 'i) session \<Rightarrow> bool" where
  "inv_barrier s =
     ((\<forall>d < length (dlists s). dl_id (dlists s ! d) = d \<and>
         (dl_called (dlists s ! d) \<noteq> None \<longleftrightarrow> list_all is_filled (dl_slots (dlists s ! d)))) \<and>
      distinct (map fst (completed s)) \<and>
      (\<forall>x \<in> set (completed s). fst x < length (dlists s) \<and>
         list_all is_filled (dl_slots (dlists s ! fst x)) \<and>
         snd x = map slot_entry (dl_slots (dlists s ! fst x))) \<and>
      (\<forall>d < length (dlists s). list_all is_filled (dl_slots (dlists s ! d)) \<longrightarrow>
         d \<in> fst ` set (completed s)))"

text \<open>
  The callbacks \<open>_process_request\<close> takes off a request, and the waiter it builds from
  them. Waiters in the lists have identities below \<open>next_wad\<close>, distinct within a list and
  across lists.
\<close>

definition caller_cb :: "'v request \<Rightarrow> 'v pyobj \<Rightarrow> 'v pyobj" where
  "caller_cb q = (case callback q of Some c \<Rightarrow> c | None \<Rightarrow> (\<lambda>x. x))"

definition caller_wad :: "nat \<Rightarrow> 'v request \<Rightarrow> 'v wad" where
  "caller_wad w q = \<lparr>wad_id = w, wad_cb = caller_cb q, wad_eb = errback q\<rparr>"

definition inv_wads :: "('k, 'v, 'i) session \<Rightarrow> bool" where
  "inv_wads s =
     ((\<forall>k ws. waiting (info s) k = Some ws \<longrightarrow>
         distinct (map wad_id ws) \<and> (\<forall>w \<in> set ws. wad_id w < next_wad s)) \<and>
      (\<forall>k k' ws ws' w w'. waiting (info s) k = Some ws \<longrightarrow> waiting (info s) k' = Some ws' \<longrightarrow>
         w \<in> set ws \<longrightarrow> w' \<in> set ws' \<longrightarrow> wad_id w = wad_id w' \<longrightarrow> k = k'))"

text \<open>
  The requests of an item as \<open>_process_request\<close> receives them, in order: \<open>seen ys objs\<close>
  follows the iteration \<open>ys\<close> and takes each object in the state the earlier calls left it
  in. \<open>submitted P item\<close> are the references submitted for the item, and \<open>extracted P item\<close>
  says that the extraction of the item's references ran to its end: \<open>get_media_requests\<close>
  returned and the iteration of its result raised nothing. \<open>submit_list\<close> passes to
  \<open>_process_request\<close>, one after the other, requests that are given in the state in which
  it receives them; \<open>submit_all\<close> on an iteration is \<open>submit_list\<close> on what \<open>seen\<close> gives
  for it.
\<close>

fun seen :: "(nat \<times> 'v request) list \<Rightarrow> (nat \<rightharpoonup> 'v request) \<Rightarrow> 'v request list" where
  "seen [] objs = []"
| "seen (y # ys) objs =
     (let r = (case objs (fst y) of None \<Rightarrow> snd y | Some r0 \<Rightarrow> r0)
      in r # seen ys (objs(fst y \<mapsto> r\<lparr>callback := None, errback := None\<rparr>)))"

definition submitted :: "('k, 'v, 'i) MediaPipeline \<Rightarrow> 'i \<Rightarrow> 'v request list" where
  "submitted P item =
     (case get_media_requests P item of
        Inl f \<Rightarrow> []
      | Inr a \<Rightarrow> seen (fst (arg_to_iter a)) Map.empty)"

definition extracted :: "('k, 'v, 'i) MediaPipeline \<Rightarrow> 'i \<Rightarrow> bool" where
  "extracted P item =
     (case get_media_requests P item of
        Inl f \<Rightarrow> False
      | Inr a \<Rightarrow> snd (arg_to_iter a) = None)"

fun submit_list :: "('k, 'v, 'i) MediaPipeline \<Rightarrow> 'v request list \<Rightarrow> ('k, 'v, 'i) session
    \<Rightarrow> 'v deferred list \<times> ('k, 'v, 'i) session" where
  "submit_list P [] s = ([], s)"
| "submit_list P (r # rs) s =
     (let (r1, d, s1) = process_request P r s;
          (ds, s2) = submit_list P rs s1
      in (d # ds, s2))"

text \<open>
  What a slot of a barrier stands for, given the request it was made for: a filled slot
  holds the cached outcome of the request's fingerprint passed through the request's
  callbacks, tagged with whether that is not a failure; a slot waiting on a waiter has that
  waiter, with the request's callbacks, in the waiter list of the fingerprint; a slot waiting
  on a chain refers to the pending chain of the fingerprint, whose own waiter is in the list.
  \<open>entry_of\<close> is the entry a resolved request has in the result list.
\<close>

definition slot_ok :: "('k, 'v, 'i) MediaPipeline \<Rightarrow> ('k, 'v, 'i) session \<Rightarrow> 'v request
    \<Rightarrow> 'v slot \<Rightarrow> bool" where
  "slot_ok P s q sl =
     (case sl of
        Filled ok r \<Rightarrow>
          ok = (\<not> is_failure r) \<and>
          (\<exists>out. downloaded (info s) (request_fingerprint P q) = Some out \<and>
                 r = addCallbacks (caller_cb q) (errback q) out)
      | Pending (OnWad w) \<Rightarrow>
          (\<exists>ws. waiting (info s) (request_fingerprint P q) = Some ws \<and> caller_wad w q \<in> set ws)
      | Pending (OnDfd n) \<Rightarrow>
          n < length (chains s) \<and> c_fp (chains s ! n) = request_fingerprint P q \<and>
          pending (chains s ! n) \<and>
          (\<exists>ws. waiting (info s) (request_fingerprint P q) = Some ws \<and>
                caller_wad (c_wad (chains s ! n)) q \<in> set ws))"

definition inv_slots :: "('k, 'v, 'i) MediaPipeline \<Rightarrow> ('k, 'v, 'i) session \<Rightarrow> bool" where
  "inv_slots P s =
     (\<forall>d < length (dlists s). extracted P (dl_item (dlists s ! d)) \<and>
        list_all2 (slot_ok P s) (submitted P (dl_item (dlists s ! d))) (dl_slots (dlists s ! d)))"

definition entry_of :: "('k, 'v, 'i) MediaPipeline \<Rightarrow> ('k, 'v, 'i) session \<Rightarrow> 'v request
    \<Rightarrow> bool \<times> 'v pyobj" where
  "entry_of P s q =
     (let r = addCallbacks (caller_cb q) (errback q)
                (the (downloaded (info s) (request_fingerprint P q)))
      in (\<not> is_failure r, r))"

text \<open>
  What the fan-out loop does to one slot (\<open>fills\<close>), and what the chain's own Deferred
  does to it afterwards (\<open>own_fill\<close>).
\<close>

fun fills :: "'v pyobj \<Rightarrow> 'v wad list \<Rightarrow> 'v slot \<Rightarrow> 'v slot" where
  "fills out [] sl = sl"
| "fills out (w # ws) sl =
     fills out ws (fill (OnWad (wad_id w)) (addCallbacks (wad_cb w) (wad_eb w) out) sl)"

definition own_fill :: "('k, 'v, 'i) MediaPipeline \<Rightarrow> nat \<Rightarrow> 'v pyobj \<Rightarrow> ('k, 'v, 'i) session
    \<Rightarrow> 'v slot \<Rightarrow> 'v slot" where
  "own_fill P n r s sl =
     (case wad_result (snd (cache_result_and_execute_waiters P r (c_fp (chains s ! n)) s))
             (c_wad (chains s ! n)) of
        None \<Rightarrow> sl
      | Some x \<Rightarrow> fill (OnDfd n) x sl)"

text \<open>
  The events of a pipeline that reach session \<open>j\<close> while it is the current one, and
  the pipeline before any session is opened.
\<close>

fun own_events :: "nat \<Rightarrow> ('v, 'i) pipeline_event list \<Rightarrow> ('v, 'i) event list" where
  "own_events j [] = []"
| "own_events j (OpenSpider sp # evs) = own_events j evs"
| "own_events j (Item item # evs) = ProcessItem item # own_events j evs"
| "own_events j (Fires j' e # evs) =
     (if j' = j \<and> is_firing e then e # own_events j evs else own_events j evs)"

fun is_open :: "('v, 'i) pipeline_event \<Rightarrow> bool" where
  "is_open (OpenSpider sp) = True"
| "is_open e = False"

definition pipeline_init :: "('k, 'v, 'i) pipeline_state" where
  "pipeline_init = \<lparr>sessions = [], spiderinfo = None\<rparr>"

text \<open>
  Concrete pipelines, requests and event lists, used to run the model on examples. The
  fingerprint of a request is its URL; item 0 makes \<open>get_media_requests\<close> raise, item 1
  refers to A and B, item 2 to B alone, every other item to nothing. In \<open>demo_raising\<close>
  the handler of successful downloads and \<open>item_completed\<close> raise. In \<open>demo_twice\<close> every
  item yields one request object twice; in \<open>demo_lazy\<close> the iteration yields A and then
  raises.
\<close>

definition demo_request :: "string \<Rightarrow> nat request" where
  "demo_request u = \<lparr>url = u, callback = None, errback = None, meta = Map.empty\<rparr>"

definition demo_failure :: failure where
  "demo_failure = \<lparr>exc = ''boom'', tb = Some ''traceback'', frames = [''frame''],
     stack = Some [''caller'']\<rparr>"

definition demo_clean :: failure where
  "demo_clean = \<lparr>exc = ''boom'', tb = None, frames = [], stack = None\<rparr>"

definition demo_caller :: "nat request" where
  "demo_caller = \<lparr>url = ''A'', callback = Some (\<lambda>r. Obj 1), errback = Some (\<lambda>r. Obj 2),
     meta = Map.empty\<rparr>"

definition demo_pipeline :: "(string, nat, nat) MediaPipeline" where
  "demo_pipeline =
     \<lparr>download_func = True, handle_httpstatus_list = None, request_fingerprint = url,
      get_media_requests = (\<lambda>i. if i = 0 then Inl demo_failure
         else if i = 1 then Inr (ArgIter [(0, demo_request ''A''), (1, demo_request ''B'')] None)
         else if i = 2 then Inr (ArgOne (demo_request ''B''))
         else Inr ArgNone),
      media_downloaded = (\<lambda>r q. r), media_failed = (\<lambda>r q. r),
      item_completed = (\<lambda>rs i. Inr i)\<rparr>"

definition demo_raising :: "(string, nat, nat) MediaPipeline" where
  "demo_raising = demo_pipeline\<lparr>media_downloaded := (\<lambda>r q. Fail demo_failure),
     item_completed := (\<lambda>rs i. Inl demo_failure)\<rparr>"

definition demo_unseen :: "(nat, nat) event list" where
  "demo_unseen = [Submit (demo_request ''A''), Submit (demo_request ''A'')]"

definition demo_inflight :: "(nat, nat) event list" where
  "demo_inflight = [Submit (demo_request ''A''), Submit (demo_request ''A''),
     Submit (demo_request ''A''), PreFetched 0 PyNone]"

definition demo_failed :: "(nat, nat) event list" where
  "demo_failed = [Submit (demo_request ''A''), PreFetched 0 PyNone,
     Downloaded 0 (Fail demo_failure)]"

definition demo_join :: "(nat, nat) event list" where
  "demo_join = [ProcessItem 1, ProcessItem 2, PreFetched 0 PyNone, PreFetched 1 PyNone,
     Downloaded 0 (Obj 10), Downloaded 1 (Obj 20)]"

definition demo_twice :: "(string, nat, nat) MediaPipeline" where
  "demo_twice = demo_pipeline\<lparr>get_media_requests :=
     (\<lambda>i. Inr (ArgIter [(0, demo_caller), (0, demo_caller)] None))\<rparr>"

definition demo_lazy :: "(string, nat, nat) MediaPipeline" where
  "demo_lazy = demo_pipeline\<lparr>get_media_requests :=
     (\<lambda>i. Inr (ArgIter [(0, demo_request ''A'')] (Some demo_failure)))\<rparr>"

definition demo_first :: "(string, nat, nat) pipeline_state" where
  "demo_first = pipeline_run demo_pipeline
     [OpenSpider ''s1'', Item 2, Fires 0 (PreFetched 0 (Obj 9))] pipeline_init"

section \<open>Lemmas\<close>

subsection \<open>What each operation changes\<close>

lemma run_Nil: "run P [] s = s"
  by (simp add: run_def)

lemma notify_frame [simp]:
  "info (notify P src r s) = info s"
  "next_wad (notify P src r s) = next_wad s"
  "wad_result (notify P src r s) = wad_result s"
  "chains (notify P src r s) = chains s"
  "submits (notify P src r s) = submits s"
  "mtd_calls (notify P src r s) = mtd_calls s"
  "download_calls (notify P src r s) = download_calls s"
  "fired (notify P src r s) = fired s"
  "errors_logged (notify P src r s) = errors_logged s"
  by (simp_all add: notify_def split: prod.splits)

lemma fire_wad_frame [simp]:
  "info (fire_wad P fp r w s) = info s"
  "next_wad (fire_wad P fp r w s) = next_wad s"
  "chains (fire_wad P fp r w s) = chains s"
  "submits (fire_wad P fp r w s) = submits s"
  "mtd_calls (fire_wad P fp r w s) = mtd_calls s"
  "download_calls (fire_wad P fp r w s) = download_calls s"
  "errors_logged (fire_wad P fp r w s) = errors_logged s"
  by (simp_all add: fire_wad_def Let_def)

lemma fire_wad_fired [simp]:
  "fired (fire_wad P fp r w s) = fired s @ [(fp, wad_id w, r, addCallbacks (wad_cb w) (wad_eb w) r)]"
  by (simp add: fire_wad_def Let_def)

lemma fire_wad_wad_result [simp]:
  "wad_result (fire_wad P fp r w s) = (wad_result s)(wad_id w \<mapsto> addCallbacks (wad_cb w) (wad_eb w) r)"
  by (simp add: fire_wad_def Let_def)

lemma fire_wads_frame [simp]:
  "info (fire_wads P fp r ws s) = info s"
  "next_wad (fire_wads P fp r ws s) = next_wad s"
  "chains (fire_wads P fp r ws s) = chains s"
  "submits (fire_wads P fp r ws s) = submits s"
  "mtd_calls (fire_wads P fp r ws s) = mtd_calls s"
  "download_calls (fire_wads P fp r ws s) = download_calls s"
  "errors_logged (fire_wads P fp r ws s) = errors_logged s"
  by (induction ws arbitrary: s; simp)+

lemma fire_wads_fired [simp]:
  "fired (fire_wads P fp r ws s) =
     fired s @ map (\<lambda>w. (fp, wad_id w, r, addCallbacks (wad_cb w) (wad_eb w) r)) ws"
  by (induction ws arbitrary: s) simp_all

lemma DeferredList_frame [simp]:
  "info (DeferredList P item ds s) = info s"
  "next_wad (DeferredList P item ds s) = next_wad s"
  "wad_result (DeferredList P item ds s) = wad_result s"
  "chains (DeferredList P item ds s) = chains s"
  "submits (DeferredList P item ds s) = submits s"
  "mtd_calls (DeferredList P item ds s) = mtd_calls s"
  "download_calls (DeferredList P item ds s) = download_calls s"
  "fired (DeferredList P item ds s) = fired s"
  "errors_logged (DeferredList P item ds s) = errors_logged s"
  by (simp_all add: DeferredList_def Let_def)

lemma process_request_frame [simp]:
  "wad_result (snd (snd (process_request P q s))) = wad_result s"
  "dlists (snd (snd (process_request P q s))) = dlists s"
  "download_calls (snd (snd (process_request P q s))) = download_calls s"
  "fired (snd (snd (process_request P q s))) = fired s"
  "completed (snd (snd (process_request P q s))) = completed s"
  "errors_logged (snd (snd (process_request P q s))) = errors_logged s"
  by (simp_all add: process_request_def Let_def split: option.splits)

lemma process_request_submits [simp]:
  "submits (snd (snd (process_request P q s))) = submits s @ [request_fingerprint P q]"
  by (simp add: process_request_def Let_def split: option.splits)

lemma process_request_cached:
  "downloaded (info s) (request_fingerprint P q) = Some cached \<Longrightarrow>
   process_request P q s =
     (q\<lparr>callback := None, errback := None\<rparr>,
      Fired (addCallbacks (case callback q of Some c \<Rightarrow> c | None \<Rightarrow> (\<lambda>x. x)) (errback q) cached),
      s\<lparr>submits := submits s @ [request_fingerprint P q]\<rparr>)"
  by (simp add: process_request_def Let_def)

lemma process_request_inflight:
  "downloaded (info s) (request_fingerprint P q) = None \<Longrightarrow>
   request_fingerprint P q \<in> downloading (info s) \<Longrightarrow>
   process_request P q s =
     (q\<lparr>callback := None, errback := None\<rparr>, WadD (next_wad s),
      s\<lparr>submits := submits s @ [request_fingerprint P q], next_wad := next_wad s + 1,
        info := (info s)\<lparr>waiting := (waiting (info s))(request_fingerprint P q \<mapsto>
           (case waiting (info s) (request_fingerprint P q) of None \<Rightarrow> [] | Some ws \<Rightarrow> ws) @
           [\<lparr>wad_id = next_wad s, wad_cb = (case callback q of Some c \<Rightarrow> c | None \<Rightarrow> (\<lambda>x. x)),
             wad_eb = errback q\<rparr>])\<rparr>\<rparr>)"
  by (simp add: process_request_def Let_def)

lemma process_request_unseen:
  "downloaded (info s) (request_fingerprint P q) = None \<Longrightarrow>
   request_fingerprint P q \<notin> downloading (info s) \<Longrightarrow>
   process_request P q s =
     (q\<lparr>callback := None, errback := None\<rparr>, ChainD (length (chains s)),
      s\<lparr>submits := submits s @ [request_fingerprint P q], next_wad := next_wad s + 1,
        info := (info s)\<lparr>waiting := (waiting (info s))(request_fingerprint P q \<mapsto>
           (case waiting (info s) (request_fingerprint P q) of None \<Rightarrow> [] | Some ws \<Rightarrow> ws) @
           [\<lparr>wad_id = next_wad s, wad_cb = (case callback q of Some c \<Rightarrow> c | None \<Rightarrow> (\<lambda>x. x)),
             wad_eb = errback q\<rparr>]),
           downloading := insert (request_fingerprint P q) (downloading (info s))\<rparr>,
        mtd_calls := mtd_calls s @ [(request_fingerprint P q, q\<lparr>callback := None, errback := None\<rparr>)],
        chains := chains s @ [\<lparr>c_fp = request_fingerprint P q,
            c_request = q\<lparr>callback := None, errback := None\<rparr>, c_wad = next_wad s,
            c_stage = AwaitHook, c_hook = None\<rparr>]\<rparr>)"
  by (simp add: process_request_def Let_def)

lemma cache_frame [simp]:
  "next_wad (snd (cache_result_and_execute_waiters P r fp s)) = next_wad s"
  "chains (snd (cache_result_and_execute_waiters P r fp s)) = chains s"
  "submits (snd (cache_result_and_execute_waiters P r fp s)) = submits s"
  "mtd_calls (snd (cache_result_and_execute_waiters P r fp s)) = mtd_calls s"
  "download_calls (snd (cache_result_and_execute_waiters P r fp s)) = download_calls s"
  "errors_logged (snd (cache_result_and_execute_waiters P r fp s)) = errors_logged s"
  by (simp_all add: cache_result_and_execute_waiters_def Let_def split: option.splits)

lemma cache_info:
  "info (snd (cache_result_and_execute_waiters P r fp s)) =
     (if fp \<notin> downloading (info s) then info s
      else (info s)\<lparr>downloading := downloading (info s) - {fp},
                     downloaded := (downloaded (info s))(fp \<mapsto> sanitize r),
                     waiting := (waiting (info s))(fp := None)\<rparr>)"
  by (auto simp add: cache_result_and_execute_waiters_def Let_def fun_upd_idem split: option.splits)

lemma chain_finish_frame [simp]:
  "next_wad (chain_finish P n r s) = next_wad s"
  "submits (chain_finish P n r s) = submits s"
  "mtd_calls (chain_finish P n r s) = mtd_calls s"
  "download_calls (chain_finish P n r s) = download_calls s"
  by (simp_all add: chain_finish_def Let_def case_prod_beta split: option.splits)

lemma chain_finish_info:
  "info (chain_finish P n r s) = info (snd (cache_result_and_execute_waiters P r (c_fp (chains s ! n)) s))"
  by (simp add: chain_finish_def Let_def case_prod_beta split: option.splits)

lemma chain_finish_chains:
  "chains (chain_finish P n r s) = (chains s)[n := (chains s ! n)\<lparr>c_stage := finish_stage P n r s\<rparr>]"
  by (simp add: chain_finish_def finish_stage_def Let_def case_prod_beta split: option.splits)

subsection \<open>The core invariant\<close>

lemma inv_core_new: "inv_core (new_session sp)"
  by (simp add: inv_core_def new_session_def SpiderInfo_init_def)

lemma map_c_fp_update:
  "n < length cs \<Longrightarrow> c_fp c = c_fp (cs ! n) \<Longrightarrow> map c_fp (cs[n := c]) = map c_fp cs"
  by (simp add: map_update list_update_same_conv)

lemma inv_core_resolve:
  assumes I: "inv_core s" and n: "n < length (chains s)" and p: "pending (chains s ! n)"
    and c: "c_fp c = c_fp (chains s ! n)" "\<not> pending c"
    and i: "info s' = (info s)\<lparr>downloading := downloading (info s) - {c_fp c},
                 downloaded := (downloaded (info s))(c_fp c \<mapsto> x),
                 waiting := (waiting (info s))(c_fp c := None)\<rparr>"
    and ch: "chains s' = (chains s)[n := c]"
    and o: "submits s' = submits s" "mtd_calls s' = mtd_calls s"
  shows "inv_core s'"
proof -
  let ?fp = "c_fp c"
  have fpin: "?fp \<in> downloading (info s)"
    using I n p c(1) unfolding inv_core_def by metis
  have keys: "map c_fp (chains s') = map c_fp (chains s)"
    using ch n c(1) by (simp add: map_c_fp_update)
  have d: "distinct (map c_fp (chains s))" using I by (simp add: inv_core_def)
  have other: "c_fp (chains s ! m) \<noteq> ?fp" if "m < length (chains s)" "m \<noteq> n" for m
    using d that n c(1) by (metis length_map nth_eq_iff_index_eq nth_map)
  have 1: "downloading (info s') \<inter> dom (downloaded (info s')) = {}"
    using I i unfolding inv_core_def by auto
  have 2: "dom (waiting (info s')) = downloading (info s')"
    using I i unfolding inv_core_def by auto
  have 4: "if pending (chains s' ! m) then c_fp (chains s' ! m) \<in> downloading (info s')
          else c_fp (chains s' ! m) \<in> dom (downloaded (info s'))" if m: "m < length (chains s')" for m
  proof (cases "m = n")
    case True
    then show ?thesis using ch n c i by simp
  next
    case False
    have m': "m < length (chains s)" using m ch by simp
    have "chains s' ! m = chains s ! m" using ch False by simp
    moreover have "if pending (chains s ! m) then c_fp (chains s ! m) \<in> downloading (info s)
          else c_fp (chains s ! m) \<in> dom (downloaded (info s))"
      using I m' unfolding inv_core_def by blast
    ultimately show ?thesis using other[OF m' False] i by (auto split: if_splits)
  qed
  have 5: "downloading (info s') \<union> dom (downloaded (info s')) = set (map c_fp (chains s'))"
  proof -
    have "downloading (info s) \<union> dom (downloaded (info s)) = set (map c_fp (chains s))"
      using I unfolding inv_core_def by blast
    then show ?thesis using fpin i keys by auto
  qed
  show ?thesis
    unfolding inv_core_def
    using 1 2 4 5 d keys o I unfolding inv_core_def by simp
qed

lemma inv_core_chain_upd:
  assumes I: "inv_core s" and n: "n < length (chains s)"
    and c: "c_fp c = c_fp (chains s ! n)" "pending c = pending (chains s ! n)"
  shows "inv_core (s\<lparr>chains := (chains s)[n := c]\<rparr>)"
proof -
  have keys: "map c_fp ((chains s)[n := c]) = map c_fp (chains s)"
    using n c(1) by (simp add: map_c_fp_update)
  have "if pending ((chains s)[n := c] ! m) then c_fp ((chains s)[n := c] ! m) \<in> downloading (info s)
          else c_fp ((chains s)[n := c] ! m) \<in> dom (downloaded (info s))" if "m < length (chains s)" for m
    using I that c n unfolding inv_core_def by (cases "m = n") auto
  then show ?thesis using I keys unfolding inv_core_def by simp
qed

lemma inv_core_cached:
  assumes I: "inv_core s"
    and e: "chains s' = chains s" "mtd_calls s' = mtd_calls s" "submits s' = submits s @ [fp]"
    and i: "info s' = info s"
    and k: "fp \<in> dom (downloaded (info s))"
  shows "inv_core s'"
proof -
  have "fp \<in> set (map c_fp (chains s))"
    using I k unfolding inv_core_def by blast
  then have "set (submits s') = set (map c_fp (chains s'))"
    using I e unfolding inv_core_def by auto
  then show ?thesis
    using I e(1,2) i unfolding inv_core_def by simp
qed

lemma inv_core_inflight:
  assumes I: "inv_core s"
    and e: "chains s' = chains s" "mtd_calls s' = mtd_calls s" "submits s' = submits s @ [fp]"
    and i: "info s' = (info s)\<lparr>waiting := (waiting (info s))(fp \<mapsto> ws)\<rparr>"
    and k: "fp \<in> downloading (info s)"
  shows "inv_core s'"
proof -
  have "fp \<in> set (map c_fp (chains s))"
    using I k unfolding inv_core_def by blast
  then have 1: "set (submits s') = set (map c_fp (chains s'))"
    using I e unfolding inv_core_def by auto
  have "dom (waiting (info s)) = downloading (info s)" using I by (simp add: inv_core_def)
  then have 2: "dom (waiting (info s')) = downloading (info s')"
    using k i by auto
  show ?thesis
    using I e(1,2) i 1 2 unfolding inv_core_def by simp
qed

lemma inv_core_unseen:
  assumes I: "inv_core s"
    and e: "chains s' = chains s @ [c]" "mtd_calls s' = mtd_calls s @ [(fp, q)]"
           "submits s' = submits s @ [fp]"
    and c: "c_fp c = fp" "pending c"
    and i: "info s' = (info s)\<lparr>waiting := (waiting (info s))(fp \<mapsto> ws),
                                downloading := insert fp (downloading (info s))\<rparr>"
    and k: "fp \<notin> downloading (info s)" "downloaded (info s) fp = None"
  shows "inv_core s'"
proof -
  have nk: "fp \<notin> set (map c_fp (chains s))"
    using I k unfolding inv_core_def by blast
  have 1: "downloading (info s') \<inter> dom (downloaded (info s')) = {}"
    using I i k unfolding inv_core_def by auto
  have "dom (waiting (info s)) = downloading (info s)" using I by (simp add: inv_core_def)
  then have 2: "dom (waiting (info s')) = downloading (info s')"
    using i by auto
  have 3: "distinct (map c_fp (chains s'))"
    using I nk e(1) c(1) unfolding inv_core_def by simp
  have 4: "if pending (chains s' ! m) then c_fp (chains s' ! m) \<in> downloading (info s')
          else c_fp (chains s' ! m) \<in> dom (downloaded (info s'))" if "m < length (chains s')" for m
  proof (cases "m = length (chains s)")
    case True
    then show ?thesis using e(1) c i by simp
  next
    case False
    then have m: "m < length (chains s)" using that e(1) by simp
    then have "chains s' ! m = chains s ! m" using e(1) by (simp add: nth_append)
    moreover have "if pending (chains s ! m) then c_fp (chains s ! m) \<in> downloading (info s)
          else c_fp (chains s ! m) \<in> dom (downloaded (info s))"
      using I m unfolding inv_core_def by blast
    ultimately show ?thesis using i by (auto split: if_splits)
  qed
  have "downloading (info s) \<union> dom (downloaded (info s)) = set (map c_fp (chains s))"
    using I unfolding inv_core_def by blast
  then have 5: "downloading (info s') \<union> dom (downloaded (info s')) = set (map c_fp (chains s'))"
    using i e(1) c(1) by auto
  have 6: "map fst (mtd_calls s') = map c_fp (chains s')"
    using I e c(1) unfolding inv_core_def by simp
  have 7: "set (submits s') = set (map c_fp (chains s'))"
    using I e c(1) unfolding inv_core_def by simp
  show ?thesis
    unfolding inv_core_def using 1 2 3 4 5 6 7 by blast
qed

lemma inv_core_process_request:
  assumes I: "inv_core s"
  shows "inv_core (snd (snd (process_request P q s)))"
proof (cases "downloaded (info s) (request_fingerprint P q)")
  case (Some cached)
  show ?thesis
    by (rule inv_core_cached[OF I, where fp = "request_fingerprint P q"])
       (simp_all add: process_request_cached[OF Some] Some domI)
next
  case None
  show ?thesis
  proof (cases "request_fingerprint P q \<in> downloading (info s)")
    case True
    show ?thesis
      by (rule inv_core_inflight[OF I, where fp = "request_fingerprint P q"])
         (simp_all add: process_request_inflight[OF None True] True)
  next
    case False
    show ?thesis
      by (rule inv_core_unseen[OF I, where fp = "request_fingerprint P q"
            and c = "\<lparr>c_fp = request_fingerprint P q,
               c_request = q\<lparr>callback := None, errback := None\<rparr>, c_wad = next_wad s,
               c_stage = AwaitHook, c_hook = None\<rparr>"])
         (simp_all add: process_request_unseen[OF None False] False None pending_def)
  qed
qed

lemma submit_list_snd_Cons:
  "snd (submit_list P (r # rs) s) = snd (submit_list P rs (snd (snd (process_request P r s))))"
  by (simp add: case_prod_beta Let_def)

lemma inv_core_submit_list: "inv_core s \<Longrightarrow> inv_core (snd (submit_list P rs s))"
proof (induction rs arbitrary: s)
  case Nil
  then show ?case by simp
next
  case (Cons r rs)
  then show ?case by (simp only: submit_list_snd_Cons inv_core_process_request)
qed

lemma inv_core_frame:
  "info s' = info s \<Longrightarrow> chains s' = chains s \<Longrightarrow> mtd_calls s' = mtd_calls s \<Longrightarrow>
   submits s' = submits s \<Longrightarrow> inv_core s' = inv_core s"
  by (simp add: inv_core_def)

lemma process_request_fst: "fst (process_request P q s) = q\<lparr>callback := None, errback := None\<rparr>"
  by (simp add: process_request_def Let_def split: option.splits)

lemma submit_all_seen: "submit_all P ys objs s = submit_list P (seen ys objs) s"
proof (induction ys arbitrary: objs s)
  case Nil
  show ?case by simp
next
  case (Cons y ys)
  show ?case by (simp add: Let_def case_prod_beta process_request_fst Cons del: fun_upd_apply)
qed

lemma process_item_snd:
  "snd (process_item P item s) =
     (if extracted P item
      then DeferredList P item (fst (submit_list P (submitted P item) s))
             (snd (submit_list P (submitted P item) s))
      else snd (submit_list P (submitted P item) s))"
  by (simp add: process_item_def submitted_def extracted_def submit_all_seen Let_def
      case_prod_beta split: sum.splits option.splits)

lemma process_item_fst: "(fst (process_item P item s) = None) = extracted P item"
  by (simp add: process_item_def extracted_def Let_def case_prod_beta
      split: sum.splits option.splits)

lemma inv_core_process_item: "inv_core s \<Longrightarrow> inv_core (snd (process_item P item s))"
  by (simp add: process_item_snd inv_core_frame[of "DeferredList P item ds t" t for ds t]
      inv_core_submit_list)

lemma not_pending_finish_stage: "\<not> pending (c\<lparr>c_stage := finish_stage P n r s\<rparr>)"
  by (simp add: pending_def finish_stage_def split: option.splits)

lemma inv_core_chain_finish:
  assumes I: "inv_core s" and n: "n < length (chains s)" and p: "pending (chains s ! n)"
  shows "inv_core (chain_finish P n r s)"
proof -
  have "c_fp (chains s ! n) \<in> downloading (info s)"
    using I n p unfolding inv_core_def by metis
  then show ?thesis
    by (intro inv_core_resolve[OF I n p, where c = "(chains s ! n)\<lparr>c_stage := finish_stage P n r s\<rparr>"
          and x = "sanitize r"])
       (simp_all add: not_pending_finish_stage chain_finish_info cache_info chain_finish_chains)
qed

lemma check_frame [simp]:
  "info (snd (check_media_to_download P r fp q s)) = info s"
  "chains (snd (check_media_to_download P r fp q s)) = chains s"
  "submits (snd (check_media_to_download P r fp q s)) = submits s"
  "mtd_calls (snd (check_media_to_download P r fp q s)) = mtd_calls s"
  "next_wad (snd (check_media_to_download P r fp q s)) = next_wad s"
  "wad_result (snd (check_media_to_download P r fp q s)) = wad_result s"
  "dlists (snd (check_media_to_download P r fp q s)) = dlists s"
  "fired (snd (check_media_to_download P r fp q s)) = fired s"
  "completed (snd (check_media_to_download P r fp q s)) = completed s"
  "errors_logged (snd (check_media_to_download P r fp q s)) = errors_logged s"
  by (simp_all add: check_media_to_download_def Let_def)

lemma prefetched_short:
  "r \<noteq> PyNone \<Longrightarrow> prefetched P n r s = chain_finish P n r (hooked n r s)"
  by (cases r) (simp_all add: prefetched_def hooked_def Let_def check_media_to_download_def)

lemma prefetched_None:
  "prefetched P n PyNone s =
     s\<lparr>download_calls := download_calls s @
          [(c_fp (chains s ! n), download_request P (c_request (chains s ! n)))],
       chains := (chains s)[n := (chains s ! n)\<lparr>c_hook := Some PyNone,
          c_request := download_request P (c_request (chains s ! n)),
          c_stage := AwaitDownload\<rparr>]\<rparr>"
  by (simp add: prefetched_def Let_def check_media_to_download_def download_request_def)

lemma inv_core_hooked:
  "inv_core s \<Longrightarrow> n < length (chains s) \<Longrightarrow> inv_core (hooked n r s)"
  unfolding hooked_def by (rule inv_core_chain_upd) (simp_all add: pending_def)

lemma inv_core_prefetched:
  assumes I: "inv_core s" and n: "n < length (chains s)" and p: "c_stage (chains s ! n) = AwaitHook"
  shows "inv_core (prefetched P n r s)"
proof (cases "r = PyNone")
  case True
  let ?t = "s\<lparr>download_calls := download_calls s @
          [(c_fp (chains s ! n), download_request P (c_request (chains s ! n)))]\<rparr>"
  have It: "inv_core ?t" using I by (simp add: inv_core_def)
  have "inv_core (?t\<lparr>chains := (chains ?t)[n := (chains ?t ! n)\<lparr>c_hook := Some PyNone,
          c_request := download_request P (c_request (chains s ! n)),
          c_stage := AwaitDownload\<rparr>]\<rparr>)"
    by (rule inv_core_chain_upd[OF It]) (simp_all add: pending_def p n)
  then show ?thesis
    unfolding True prefetched_None by simp
next
  case False
  have "pending (chains (hooked n r s) ! n)" using n p by (simp add: hooked_def pending_def)
  moreover have "n < length (chains (hooked n r s))" using n by (simp add: hooked_def)
  ultimately show ?thesis
    unfolding prefetched_short[OF False]
    using inv_core_hooked[OF I n] by (intro inv_core_chain_finish)
qed

lemma inv_core_download_done:
  "inv_core s \<Longrightarrow> n < length (chains s) \<Longrightarrow> c_stage (chains s ! n) = AwaitDownload \<Longrightarrow>
   inv_core (download_done P n r s)"
  by (simp add: download_done_def Let_def inv_core_chain_finish pending_def)

lemma inv_core_step: "inv_core s \<Longrightarrow> inv_core (step P s e)"
  by (cases e)
     (simp_all add: inv_core_process_request inv_core_prefetched inv_core_download_done
       inv_core_process_item)

lemma run_snoc: "run P (evs @ [e]) s = step P (run P evs s) e"
  by (simp add: run_def)

lemma run_append: "run P (evs @ evs') s = run P evs' (run P evs s)"
  by (simp add: run_def)

lemma inv_core_run: "inv_core s \<Longrightarrow> inv_core (run P evs s)"
  by (induction evs rule: rev_induct) (simp_all add: run_Nil run_snoc inv_core_step)

subsection \<open>Fired waiters\<close>

lemma cache_fired:
  "fired (snd (cache_result_and_execute_waiters P r fp s)) =
     (if fp \<in> downloading (info s)
      then (case waiting (info s) fp of None \<Rightarrow> fired s
            | Some ws \<Rightarrow> fired s @ fanout fp (sanitize r) ws)
      else fired s)"
  by (simp add: cache_result_and_execute_waiters_def Let_def fanout_def split: option.splits)

lemma chain_finish_fired:
  "fired (chain_finish P n r s) =
     fired (snd (cache_result_and_execute_waiters P r (c_fp (chains s ! n)) s))"
  by (simp add: chain_finish_def Let_def case_prod_beta split: option.splits)

lemma process_request_downloaded [simp]:
  "downloaded (info (snd (snd (process_request P q s)))) = downloaded (info s)"
  by (simp add: process_request_def Let_def split: option.splits)

lemma submit_list_frame [simp]:
  "downloaded (info (snd (submit_list P rs s))) = downloaded (info s)"
  "wad_result (snd (submit_list P rs s)) = wad_result s"
  "download_calls (snd (submit_list P rs s)) = download_calls s"
  "fired (snd (submit_list P rs s)) = fired s"
  "completed (snd (submit_list P rs s)) = completed s"
  "dlists (snd (submit_list P rs s)) = dlists s"
  "errors_logged (snd (submit_list P rs s)) = errors_logged s"
  by (induction rs arbitrary: s; simp add: case_prod_beta Let_def)+

lemma hooked_frame [simp]:
  "info (hooked n r s) = info s" "fired (hooked n r s) = fired s"
  "next_wad (hooked n r s) = next_wad s" "wad_result (hooked n r s) = wad_result s"
  "dlists (hooked n r s) = dlists s" "submits (hooked n r s) = submits s"
  "mtd_calls (hooked n r s) = mtd_calls s" "download_calls (hooked n r s) = download_calls s"
  "completed (hooked n r s) = completed s" "errors_logged (hooked n r s) = errors_logged s"
  "length (chains (hooked n r s)) = length (chains s)"
  by (simp_all add: hooked_def)

lemma hooked_nth_fp [simp]: "c_fp (chains (hooked n r s) ! m) = c_fp (chains s ! m)"
  by (cases "n < length (chains s)"; cases "m = n") (simp_all add: hooked_def list_update_beyond)

lemma hooked_nth_stage [simp]: "c_stage (chains (hooked n r s) ! m) = c_stage (chains s ! m)"
  by (cases "n < length (chains s)"; cases "m = n") (simp_all add: hooked_def list_update_beyond)

lemma hooked_nth_wad [simp]: "c_wad (chains (hooked n r s) ! m) = c_wad (chains s ! m)"
  by (cases "n < length (chains s)"; cases "m = n") (simp_all add: hooked_def list_update_beyond)

lemma hooked_nth_request [simp]: "c_request (chains (hooked n r s) ! m) = c_request (chains s ! m)"
  by (cases "n < length (chains s)"; cases "m = n") (simp_all add: hooked_def list_update_beyond)

lemma step_item_frame [simp]:
  "downloaded (info (step P s (ProcessItem item))) = downloaded (info s)"
  "fired (step P s (ProcessItem item)) = fired s"
  "download_calls (step P s (ProcessItem item)) = download_calls s"
  "wad_result (step P s (ProcessItem item)) = wad_result s"
  "errors_logged (step P s (ProcessItem item)) = errors_logged s"
  by (simp_all add: process_item_snd)

lemma prefetched_fired:
  "fired (prefetched P n r s) =
     (if r = PyNone then fired s
      else fired (snd (cache_result_and_execute_waiters P r (c_fp (chains s ! n)) (hooked n r s))))"
  by (simp add: prefetched_None prefetched_short chain_finish_fired)

lemma inv_fired_cache:
  assumes I: "inv_core s" and F: "inv_fired s"
    and i: "info s' = info (snd (cache_result_and_execute_waiters P r fp s))"
    and f: "fired s' = fired (snd (cache_result_and_execute_waiters P r fp s))"
  shows "inv_fired s'"
proof (cases "fp \<in> downloading (info s)")
  case False
  then show ?thesis using F i f by (simp add: inv_fired_def cache_info cache_fired)
next
  case True
  have nd: "downloaded (info s) fp = None"
    using I True unfolding inv_core_def by auto
  have old: "\<forall>(k, w, out, res) \<in> set (fired s). downloaded (info s') k = Some out"
  proof (clarify)
    fix k w out res assume "(k, w, out, res) \<in> set (fired s)"
    then have "downloaded (info s) k = Some out"
      using F unfolding inv_fired_def by blast
    moreover from this have "k \<noteq> fp" using nd by auto
    ultimately show "downloaded (info s') k = Some out"
      using i True by (simp add: cache_info)
  qed
  have new: "\<forall>(k, w, out, res) \<in> set (fanout fp (sanitize r) ws). downloaded (info s') k = Some out" for ws
    using i True by (auto simp add: cache_info fanout_def)
  show ?thesis
  proof (cases "waiting (info s) fp")
    case None
    then show ?thesis unfolding inv_fired_def f cache_fired using True old by simp
  next
    case (Some ws)
    then show ?thesis
      unfolding inv_fired_def f cache_fired using True old new[of ws] by (simp add: ball_Un)
  qed
qed

lemma inv_fired_step:
  assumes I: "inv_core s" and F: "inv_fired s"
  shows "inv_fired (step P s e)"
proof (cases e)
  case (ProcessItem item)
  then show ?thesis using F by (simp add: inv_fired_def del: step.simps)
next
  case (Submit q)
  then show ?thesis using F by (simp add: inv_fired_def)
next
  case (PreFetched n r)
  show ?thesis
  proof (cases "n < length (chains s) \<and> c_stage (chains s ! n) = AwaitHook")
    case False
    then show ?thesis using F PreFetched by auto
  next
    case True
    show ?thesis
    proof (cases "r = PyNone")
      case True
      then show ?thesis using F PreFetched by (simp add: prefetched_None inv_fired_def)
    next
      case False
      have "inv_fired (chain_finish P n r (hooked n r s))"
        by (rule inv_fired_cache[where s = "hooked n r s" and r = r and fp = "c_fp (chains s ! n)"])
           (use I F True in \<open>simp_all add: inv_core_hooked chain_finish_info chain_finish_fired inv_fired_def\<close>)
      then show ?thesis using PreFetched True False by (simp add: prefetched_short)
    qed
  qed
next
  case (Downloaded n r)
  show ?thesis
  proof (cases "n < length (chains s) \<and> c_stage (chains s ! n) = AwaitDownload")
    case False
    then show ?thesis using F Downloaded by auto
  next
    case True
    have "inv_fired (chain_finish P n x s)" for x
      by (rule inv_fired_cache[OF I F, where r = x and fp = "c_fp (chains s ! n)"])
         (simp_all add: chain_finish_info chain_finish_fired)
    then show ?thesis using Downloaded True by (simp add: download_done_def Let_def)
  qed
qed

lemma inv_fired_run: "inv_fired (run P evs (new_session sp))"
proof (induction evs rule: rev_induct)
  case Nil
  then show ?case by (simp add: run_Nil inv_fired_def new_session_def)
next
  case (snoc e evs)
  then show ?case by (simp add: run_snoc inv_fired_step inv_core_run inv_core_new)
qed

subsection \<open>Cached failures are stripped\<close>

lemma sanitize_clean: "sanitize r = Fail f \<Longrightarrow> frames f = [] \<and> stack f = None"
  by (auto simp add: sanitize_def split: pyobj.splits)

lemma inv_clean_cache:
  assumes C: "inv_clean s"
    and i: "info s' = info (snd (cache_result_and_execute_waiters P r fp s))"
  shows "inv_clean s'"
  using C sanitize_clean[of r] unfolding inv_clean_def i cache_info
  by (auto split: if_splits)

lemma inv_clean_frame: "downloaded (info s') = downloaded (info s) \<Longrightarrow> inv_clean s' = inv_clean s"
  by (simp add: inv_clean_def)

lemma prefetched_info:
  "info (prefetched P n r s) =
     (if r = PyNone then info s
      else info (snd (cache_result_and_execute_waiters P r (c_fp (chains s ! n)) (hooked n r s))))"
  by (simp add: prefetched_None prefetched_short chain_finish_info)

lemma download_done_info:
  "info (download_done P n r s) =
     info (snd (cache_result_and_execute_waiters P
        (if is_failure r then media_failed P r (c_request (chains s ! n))
         else media_downloaded P r (c_request (chains s ! n))) (c_fp (chains s ! n)) s))"
  by (simp add: download_done_def Let_def chain_finish_info)

lemma inv_clean_step: "inv_clean s \<Longrightarrow> inv_clean (step P s e)"
proof (cases e)
  case (ProcessItem item)
  assume "inv_clean s"
  then show ?thesis unfolding ProcessItem
    by (subst inv_clean_frame[where s = s]) (simp_all del: step.simps)
next
  case (Submit q)
  assume "inv_clean s"
  then show ?thesis unfolding Submit
    by (subst inv_clean_frame[where s = s]) simp_all
next
  case (PreFetched n r)
  assume C: "inv_clean s"
  have h: "inv_clean (hooked n r s)"
    using C by (subst inv_clean_frame[where s = s]) simp_all
  have "inv_clean (prefetched P n r s)"
  proof (cases "r = PyNone")
    case True
    then show ?thesis using C by (subst inv_clean_frame[where s = s]) (simp_all add: prefetched_info)
  next
    case False
    show ?thesis using h by (rule inv_clean_cache) (simp add: prefetched_info False)
  qed
  then show ?thesis using C PreFetched by simp
next
  case (Downloaded n r)
  assume C: "inv_clean s"
  have "inv_clean (download_done P n r s)"
    using C by (rule inv_clean_cache) (simp add: download_done_info)
  then show ?thesis using C Downloaded by simp
qed

lemma inv_clean_run: "inv_clean (run P evs (new_session sp))"
proof (induction evs rule: rev_induct)
  case Nil
  then show ?case by (simp add: run_Nil inv_clean_def new_session_def SpiderInfo_init_def)
next
  case (snoc e evs)
  then show ?case by (simp add: run_snoc inv_clean_step)
qed

subsection \<open>Requests without callbacks\<close>

lemma detached_modify: "detached q \<Longrightarrow> detached (modify_media_request P q)"
  by (simp add: detached_def modify_media_request_def split: option.splits)

lemma detached_download_request: "detached q \<Longrightarrow> detached (download_request P q)"
  by (simp add: download_request_def detached_modify)

lemma process_request_chains:
  "chains (snd (snd (process_request P q s))) = chains s \<or>
   chains (snd (snd (process_request P q s))) = chains s @
      [\<lparr>c_fp = request_fingerprint P q, c_request = q\<lparr>callback := None, errback := None\<rparr>,
        c_wad = next_wad s, c_stage = AwaitHook, c_hook = None\<rparr>]"
  by (simp add: process_request_def Let_def split: option.splits)

lemma process_request_mtd_calls:
  "mtd_calls (snd (snd (process_request P q s))) = mtd_calls s \<or>
   mtd_calls (snd (snd (process_request P q s))) = mtd_calls s @
      [(request_fingerprint P q, q\<lparr>callback := None, errback := None\<rparr>)]"
  by (simp add: process_request_def Let_def split: option.splits)

lemma inv_req_process_request:
  assumes "inv_req s"
  shows "inv_req (snd (snd (process_request P q s)))"
proof -
  have "detached (q\<lparr>callback := None, errback := None\<rparr>)" by (simp add: detached_def)
  then show ?thesis
    using assms process_request_chains[of P q s] process_request_mtd_calls[of P q s]
    unfolding inv_req_def by auto
qed

lemma inv_req_submit_list: "inv_req s \<Longrightarrow> inv_req (snd (submit_list P rs s))"
proof (induction rs arbitrary: s)
  case Nil
  then show ?case by simp
next
  case (Cons r rs)
  then show ?case by (simp only: submit_list_snd_Cons inv_req_process_request)
qed

lemma inv_req_frame:
  "chains s' = chains s \<Longrightarrow> mtd_calls s' = mtd_calls s \<Longrightarrow> download_calls s' = download_calls s
   \<Longrightarrow> inv_req s' = inv_req s"
  by (simp add: inv_req_def)

lemma inv_req_chain_upd:
  assumes "inv_req s" "detached (c_request c)" "chains s' = (chains s)[n := c]"
    "mtd_calls s' = mtd_calls s" "download_calls s' = download_calls s"
  shows "inv_req s'"
  using assms set_update_subset_insert[of "chains s" n c] unfolding inv_req_def by auto

lemma inv_req_chain_finish:
  assumes "inv_req s" "n < length (chains s)"
  shows "inv_req (chain_finish P n r s)"
proof (rule inv_req_chain_upd[OF assms(1)])
  show "chains (chain_finish P n r s) = (chains s)[n := (chains s ! n)\<lparr>c_stage := finish_stage P n r s\<rparr>]"
    by (rule chain_finish_chains)
  show "detached (c_request ((chains s ! n)\<lparr>c_stage := finish_stage P n r s\<rparr>))"
    using assms unfolding inv_req_def by simp
qed simp_all

lemma inv_req_step: "inv_req s \<Longrightarrow> inv_req (step P s e)"
proof (cases e)
  case (ProcessItem item)
  assume "inv_req s"
  show ?thesis
  proof (cases "extracted P item")
    case False
    then show ?thesis using \<open>inv_req s\<close> ProcessItem
      by (simp add: process_item_snd inv_req_submit_list)
  next
    case True
    define s1 where "s1 = DeferredList P item (fst (submit_list P (submitted P item) s))
      (snd (submit_list P (submitted P item) s))"
    have "inv_req s1 = inv_req (snd (submit_list P (submitted P item) s))"
      unfolding s1_def by (rule inv_req_frame) simp_all
    then show ?thesis using \<open>inv_req s\<close> ProcessItem True
      by (simp add: process_item_snd s1_def inv_req_submit_list)
  qed
next
  case (Submit q)
  assume "inv_req s"
  then show ?thesis using Submit by (simp add: inv_req_process_request)
next
  case (PreFetched n r)
  assume C: "inv_req s"
  show ?thesis
  proof (cases "n < length (chains s) \<and> c_stage (chains s ! n) = AwaitHook")
    case False
    then show ?thesis using C PreFetched by auto
  next
    case True
    then have d: "detached (c_request (chains s ! n))" using C unfolding inv_req_def by simp
    have h: "inv_req (hooked n r s)"
      by (rule inv_req_chain_upd[OF C, where n = n and c = "(chains s ! n)\<lparr>c_hook := Some r\<rparr>"])
         (simp_all add: d hooked_def)
    have "inv_req (prefetched P n r s)"
    proof (cases "r = PyNone")
      case False
      then show ?thesis using h True by (simp add: prefetched_short inv_req_chain_finish)
    next
      case r: True
      let ?t = "s\<lparr>download_calls := download_calls s @
          [(c_fp (chains s ! n), download_request P (c_request (chains s ! n)))]\<rparr>"
      have "inv_req ?t" using C d unfolding inv_req_def by (simp add: detached_download_request)
      then show ?thesis
        by (rule inv_req_chain_upd[where n = n and c = "(chains s ! n)\<lparr>c_hook := Some PyNone,
            c_request := download_request P (c_request (chains s ! n)), c_stage := AwaitDownload\<rparr>"])
           (simp_all add: r prefetched_None d detached_download_request)
    qed
    then show ?thesis using PreFetched True by simp
  qed
next
  case (Downloaded n r)
  assume C: "inv_req s"
  then show ?thesis using Downloaded
    by (simp add: download_done_def Let_def inv_req_chain_finish)
qed

lemma inv_req_run: "inv_req (run P evs (new_session sp))"
proof (induction evs rule: rev_induct)
  case Nil
  then show ?case by (simp add: run_Nil inv_req_def new_session_def)
next
  case (snoc e evs)
  then show ?case by (simp add: run_snoc inv_req_step)
qed

subsection \<open>A cached result stays\<close>

lemma prefetched_chains:
  "n < length (chains s) \<Longrightarrow>
   chains (prefetched P n r s) =
     (chains s)[n := (chains s ! n)\<lparr>c_hook := Some r,
        c_request := (if r = PyNone then download_request P (c_request (chains s ! n))
                      else c_request (chains s ! n)),
        c_stage := (if r = PyNone then AwaitDownload else finish_stage P n r (hooked n r s))\<rparr>]"
  by (simp add: prefetched_None prefetched_short chain_finish_chains hooked_def)

lemma prefetched_download_calls:
  "download_calls (prefetched P n r s) =
     (if r = PyNone
      then download_calls s @ [(c_fp (chains s ! n), download_request P (c_request (chains s ! n)))]
      else download_calls s)"
  by (simp add: prefetched_None prefetched_short)

lemma prefetched_frame [simp]:
  "mtd_calls (prefetched P n r s) = mtd_calls s"
  "submits (prefetched P n r s) = submits s"
  "next_wad (prefetched P n r s) = next_wad s"
  by (cases "r = PyNone"; simp add: prefetched_None prefetched_short)+

lemma download_done_frame [simp]:
  "mtd_calls (download_done P n r s) = mtd_calls s"
  "submits (download_done P n r s) = submits s"
  "next_wad (download_done P n r s) = next_wad s"
  "download_calls (download_done P n r s) = download_calls s"
  by (simp_all add: download_done_def Let_def)

lemma download_done_chains:
  "chains (download_done P n r s) =
     (chains s)[n := (chains s ! n)\<lparr>c_stage := finish_stage P n
        (if is_failure r then media_failed P r (c_request (chains s ! n))
         else media_downloaded P r (c_request (chains s ! n))) s\<rparr>]"
  by (simp add: download_done_def Let_def chain_finish_chains)

lemma process_request_mtd_calls_eq:
  "mtd_calls (snd (snd (process_request P q s))) =
     mtd_calls s @
       (if downloaded (info s) (request_fingerprint P q) = None \<and>
           request_fingerprint P q \<notin> downloading (info s)
        then [(request_fingerprint P q, q\<lparr>callback := None, errback := None\<rparr>)] else [])"
  by (simp add: process_request_def Let_def split: option.splits)

lemma settled_refl: "downloaded (info s) k = Some r \<Longrightarrow> settled k r s s"
  by (simp add: settled_def)

lemma settled_trans: "settled k r s s' \<Longrightarrow> settled k r s' s'' \<Longrightarrow> settled k r s s''"
  by (simp add: settled_def)

lemma settled_process_request:
  "downloaded (info s) k = Some r \<Longrightarrow> settled k r s (snd (snd (process_request P q s)))"
  by (auto simp add: settled_def process_request_mtd_calls_eq)

lemma settled_submit_list:
  "downloaded (info s) k = Some r \<Longrightarrow> settled k r s (snd (submit_list P rs s))"
proof (induction rs arbitrary: s)
  case Nil
  then show ?case by (simp add: settled_refl)
next
  case (Cons q rs)
  have 1: "settled k r s (snd (snd (process_request P q s)))"
    using Cons.prems by (rule settled_process_request)
  then have "downloaded (info (snd (snd (process_request P q s)))) k = Some r"
    by (simp add: settled_def)
  then have "settled k r (snd (snd (process_request P q s)))
      (snd (submit_list P rs (snd (snd (process_request P q s)))))"
    by (rule Cons.IH)
  with 1 show ?case by (simp only: submit_list_snd_Cons) (rule settled_trans)
qed

lemma settled_frame:
  "settled k r s s' \<Longrightarrow> downloaded (info s'') = downloaded (info s') \<Longrightarrow>
   mtd_calls s'' = mtd_calls s' \<Longrightarrow> download_calls s'' = download_calls s' \<Longrightarrow>
   settled k r s s''"
  by (simp add: settled_def)

lemma settled_step:
  assumes I: "inv_core s" and d: "downloaded (info s) k = Some r"
  shows "settled k r s (step P s e)"
proof (cases e)
  case (ProcessItem item)
  show ?thesis
  proof (cases "extracted P item")
    case False
    then show ?thesis using d ProcessItem by (simp add: process_item_snd settled_submit_list)
  next
    case True
    define s1 where "s1 = DeferredList P item (fst (submit_list P (submitted P item) s))
      (snd (submit_list P (submitted P item) s))"
    have "settled k r s s1"
      unfolding s1_def by (rule settled_frame[OF settled_submit_list[OF d]]) simp_all
    then show ?thesis using ProcessItem True by (simp add: process_item_snd s1_def)
  qed
next
  case (Submit q)
  then show ?thesis using d by (simp add: settled_process_request)
next
  case (PreFetched n r')
  show ?thesis
  proof (cases "n < length (chains s) \<and> c_stage (chains s ! n) = AwaitHook")
    case False
    then show ?thesis using d PreFetched by (auto simp add: settled_refl)
  next
    case True
    then have "pending (chains s ! n)" by (simp add: pending_def)
    then have in_dl: "c_fp (chains s ! n) \<in> downloading (info s)"
      using I True unfolding inv_core_def by metis
    then have ne: "c_fp (chains s ! n) \<noteq> k"
      using I d unfolding inv_core_def by auto
    have "downloaded (info (prefetched P n r' s)) k = Some r"
      using d ne in_dl by (simp add: prefetched_info cache_info)
    then have "settled k r s (prefetched P n r' s)"
      using ne by (simp add: settled_def prefetched_download_calls)
    then show ?thesis using PreFetched True by simp
  qed
next
  case (Downloaded n r')
  show ?thesis
  proof (cases "n < length (chains s) \<and> c_stage (chains s ! n) = AwaitDownload")
    case False
    then show ?thesis using d Downloaded by (auto simp add: settled_refl)
  next
    case True
    then have "pending (chains s ! n)" by (simp add: pending_def)
    then have in_dl: "c_fp (chains s ! n) \<in> downloading (info s)"
      using I True unfolding inv_core_def by metis
    then have ne: "c_fp (chains s ! n) \<noteq> k"
      using I d unfolding inv_core_def by auto
    have "downloaded (info (download_done P n r' s)) k = Some r"
      using d ne in_dl by (simp add: download_done_info cache_info)
    then have "settled k r s (download_done P n r' s)"
      by (simp add: settled_def)
    then show ?thesis using Downloaded True by simp
  qed
qed

lemma settled_run:
  assumes I: "inv_core s" and d: "downloaded (info s) k = Some r"
  shows "settled k r s (run P evs s)"
proof (induction evs rule: rev_induct)
  case Nil
  then show ?case using d by (simp add: run_Nil settled_refl)
next
  case (snoc e evs)
  have "inv_core (run P evs s)" using I by (rule inv_core_run)
  moreover have "downloaded (info (run P evs s)) k = Some r"
    using snoc by (simp add: settled_def)
  ultimately have "settled k r (run P evs s) (step P (run P evs s) e)"
    by (rule settled_step)
  with snoc show ?case by (simp only: run_snoc) (rule settled_trans)
qed

subsection \<open>Download calls\<close>

lemma inv_dl_append:
  assumes D: "inv_dl s"
    and ch: "chains s' = chains s \<or> (\<exists>c. chains s' = chains s @ [c] \<and> c_hook c = None)"
    and dc: "download_calls s' = download_calls s"
  shows "inv_dl s'"
proof -
  from ch show ?thesis
  proof
    assume "chains s' = chains s"
    then show ?thesis using D dc by (simp add: inv_dl_def)
  next
    assume "\<exists>c. chains s' = chains s @ [c] \<and> c_hook c = None"
    then obtain c where c: "chains s' = chains s @ [c]" "c_hook c = None" by blast
    have nth: "chains s' ! m = (if m < length (chains s) then chains s ! m else c)"
      if "m < length (chains s')" for m
      using that c(1) by (auto simp add: nth_append)
    have 2: "(\<exists>m < length (chains s'). c_fp (chains s' ! m) = k \<and> c_hook (chains s' ! m) = Some PyNone)
        \<longleftrightarrow> (\<exists>m < length (chains s). c_fp (chains s ! m) = k \<and> c_hook (chains s ! m) = Some PyNone)" for k
    proof
      assume "\<exists>m < length (chains s'). c_fp (chains s' ! m) = k \<and> c_hook (chains s' ! m) = Some PyNone"
      then obtain m where m: "m < length (chains s')" "c_fp (chains s' ! m) = k"
        "c_hook (chains s' ! m) = Some PyNone" by blast
      then have "m < length (chains s)" using nth[OF m(1)] c(2) by (auto split: if_splits)
      then show "\<exists>m < length (chains s). c_fp (chains s ! m) = k \<and> c_hook (chains s ! m) = Some PyNone"
        using m nth[OF m(1)] by auto
    next
      assume "\<exists>m < length (chains s). c_fp (chains s ! m) = k \<and> c_hook (chains s ! m) = Some PyNone"
      then obtain m where m: "m < length (chains s)" "c_fp (chains s ! m) = k"
        "c_hook (chains s ! m) = Some PyNone" by blast
      then have "m < length (chains s')" "chains s' ! m = chains s ! m"
        using c(1) by (simp_all add: nth_append)
      then show "\<exists>m < length (chains s'). c_fp (chains s' ! m) = k \<and> c_hook (chains s' ! m) = Some PyNone"
        using m by auto
    qed
    have 3: "c_stage (chains s' ! m) = AwaitHook \<longrightarrow> c_hook (chains s' ! m) = None"
      if "m < length (chains s')" for m
      using D nth[OF that] c(2) unfolding inv_dl_def by auto
    show ?thesis
      unfolding inv_dl_def using D dc 2 3 unfolding inv_dl_def by simp
  qed
qed

lemma inv_dl_chain_upd:
  assumes D: "inv_dl s" and n: "n < length (chains s)"
    and ch: "chains s' = (chains s)[n := c]"
    and c: "c_fp c = c_fp (chains s ! n)"
           "c_hook c = Some PyNone \<longleftrightarrow> c_hook (chains s ! n) = Some PyNone"
           "c_stage c = AwaitHook \<longrightarrow> c_hook c = None"
    and dc: "download_calls s' = download_calls s"
  shows "inv_dl s'"
proof -
  have len: "length (chains s') = length (chains s)" using ch by simp
  have nth: "chains s' ! m = (if m = n then c else chains s ! m)" if "m < length (chains s)" for m
    using that ch by simp
  have 2: "(\<exists>m < length (chains s'). c_fp (chains s' ! m) = k \<and> c_hook (chains s' ! m) = Some PyNone)
        \<longleftrightarrow> (\<exists>m < length (chains s). c_fp (chains s ! m) = k \<and> c_hook (chains s ! m) = Some PyNone)" for k
    unfolding len using nth c n by (metis (no_types, lifting))
  have 3: "c_stage (chains s' ! m) = AwaitHook \<longrightarrow> c_hook (chains s' ! m) = None"
    if "m < length (chains s')" for m
    using D nth[of m] that c(3) len unfolding inv_dl_def by auto
  show ?thesis
    unfolding inv_dl_def using D dc 2 3 unfolding inv_dl_def by simp
qed

lemma inv_dl_start:
  assumes D: "inv_dl s" and I: "inv_core s" and n: "n < length (chains s)"
    and st: "c_stage (chains s ! n) = AwaitHook"
    and ch: "chains s' = (chains s)[n := c]"
    and c: "c_fp c = c_fp (chains s ! n)" "c_hook c = Some PyNone" "c_stage c \<noteq> AwaitHook"
    and dc: "download_calls s' = download_calls s @ [(c_fp c, q)]"
  shows "inv_dl s'"
proof -
  have len: "length (chains s') = length (chains s)" using ch by simp
  have nth: "chains s' ! m = (if m = n then c else chains s ! m)" if "m < length (chains s)" for m
    using that ch by simp
  have hn: "c_hook (chains s ! n) = None" using D n st unfolding inv_dl_def by blast
  have d: "distinct (map c_fp (chains s))" using I by (simp add: inv_core_def)
  have other: "c_fp (chains s ! m) \<noteq> c_fp c" if "m < length (chains s)" "m \<noteq> n" for m
    using d that n c(1) by (metis length_map nth_eq_iff_index_eq nth_map)
  have notin: "c_fp c \<notin> set (map fst (download_calls s))"
  proof
    assume "c_fp c \<in> set (map fst (download_calls s))"
    then obtain m where m: "m < length (chains s)" "c_fp (chains s ! m) = c_fp c"
      "c_hook (chains s ! m) = Some PyNone"
      using D unfolding inv_dl_def by blast
    then show False using other[of m] hn by (cases "m = n") auto
  qed
  have 1: "distinct (map fst (download_calls s'))"
    using D notin dc unfolding inv_dl_def by simp
  have 2: "k \<in> set (map fst (download_calls s')) \<longleftrightarrow>
      (\<exists>m < length (chains s'). c_fp (chains s' ! m) = k \<and> c_hook (chains s' ! m) = Some PyNone)" for k
  proof
    assume "k \<in> set (map fst (download_calls s'))"
    then have "k = c_fp c \<or> k \<in> set (map fst (download_calls s))" using dc by auto
    then show "\<exists>m < length (chains s'). c_fp (chains s' ! m) = k \<and> c_hook (chains s' ! m) = Some PyNone"
    proof
      assume "k = c_fp c"
      then show ?thesis using n nth[OF n] c(2) len by auto
    next
      assume "k \<in> set (map fst (download_calls s))"
      then obtain m where m: "m < length (chains s)" "c_fp (chains s ! m) = k"
        "c_hook (chains s ! m) = Some PyNone"
        using D unfolding inv_dl_def by blast
      then have "m \<noteq> n" using hn by auto
      then show ?thesis using m nth[OF m(1)] len by auto
    qed
  next
    assume "\<exists>m < length (chains s'). c_fp (chains s' ! m) = k \<and> c_hook (chains s' ! m) = Some PyNone"
    then obtain m where m: "m < length (chains s)" "c_fp (chains s' ! m) = k"
        "c_hook (chains s' ! m) = Some PyNone" using len by auto
    show "k \<in> set (map fst (download_calls s'))"
    proof (cases "m = n")
      case True
      then show ?thesis using m nth[OF m(1)] dc by auto
    next
      case False
      then have "k \<in> set (map fst (download_calls s))"
        using m nth[OF m(1)] D unfolding inv_dl_def by auto
      then show ?thesis using dc by auto
    qed
  qed
  have 3: "c_stage (chains s' ! m) = AwaitHook \<longrightarrow> c_hook (chains s' ! m) = None"
    if "m < length (chains s')" for m
    using D nth[of m] that c(3) len unfolding inv_dl_def by auto
  show ?thesis
    unfolding inv_dl_def using 1 2 3 by blast
qed

lemma finish_stage_cases: "finish_stage P n r s = Finished \<or> finish_stage P n r s = Stalled"
  by (simp add: finish_stage_def split: option.splits)

lemma finish_stage_not_await [simp]:
  "finish_stage P n r s \<noteq> AwaitHook" "finish_stage P n r s \<noteq> AwaitDownload"
  using finish_stage_cases[of P n r s] by auto

lemma inv_dl_process_request: "inv_dl s \<Longrightarrow> inv_dl (snd (snd (process_request P q s)))"
  by (rule inv_dl_append) (use process_request_chains[of P q s] in auto)

lemma inv_dl_submit_list: "inv_dl s \<Longrightarrow> inv_dl (snd (submit_list P rs s))"
proof (induction rs arbitrary: s)
  case Nil
  then show ?case by simp
next
  case (Cons r rs)
  then show ?case by (simp only: submit_list_snd_Cons inv_dl_process_request)
qed

lemma inv_dl_step:
  assumes I: "inv_core s" and D: "inv_dl s"
  shows "inv_dl (step P s e)"
proof (cases e)
  case (ProcessItem item)
  show ?thesis
  proof (cases "extracted P item")
    case False
    then show ?thesis using D ProcessItem by (simp add: process_item_snd inv_dl_submit_list)
  next
    case True
    define s1 where "s1 = DeferredList P item (fst (submit_list P (submitted P item) s))
      (snd (submit_list P (submitted P item) s))"
    have "inv_dl s1"
      by (rule inv_dl_append[OF inv_dl_submit_list[OF D, of P "submitted P item"]]) (simp_all add: s1_def)
    then show ?thesis using ProcessItem True by (simp add: process_item_snd s1_def)
  qed
next
  case (Submit q)
  then show ?thesis using D by (simp add: inv_dl_process_request)
next
  case (PreFetched n r)
  show ?thesis
  proof (cases "n < length (chains s) \<and> c_stage (chains s ! n) = AwaitHook")
    case False
    then show ?thesis using D PreFetched by auto
  next
    case True
    then have n: "n < length (chains s)" and st: "c_stage (chains s ! n) = AwaitHook" by auto
    have hn: "c_hook (chains s ! n) = None" using D n st unfolding inv_dl_def by blast
    have "inv_dl (prefetched P n r s)"
    proof (cases "r = PyNone")
      case True
      show ?thesis
        by (rule inv_dl_start[OF D I n st prefetched_chains[OF n],
              where q = "download_request P (c_request (chains s ! n))"])
           (simp_all add: True prefetched_download_calls)
    next
      case False
      show ?thesis
        by (rule inv_dl_chain_upd[OF D n prefetched_chains[OF n]])
           (simp_all add: False hn prefetched_download_calls)
    qed
    then show ?thesis using PreFetched True by simp
  qed
next
  case (Downloaded n r)
  show ?thesis
  proof (cases "n < length (chains s) \<and> c_stage (chains s ! n) = AwaitDownload")
    case False
    then show ?thesis using D Downloaded by auto
  next
    case True
    have "inv_dl (download_done P n r s)"
      by (rule inv_dl_chain_upd[OF D _ download_done_chains]) (use True in simp_all)
    then show ?thesis using Downloaded True by simp
  qed
qed

lemma inv_dl_run: "inv_dl (run P evs (new_session sp))"
proof (induction evs rule: rev_induct)
  case Nil
  then show ?case by (simp add: run_Nil inv_dl_def new_session_def)
next
  case (snoc e evs)
  then show ?case by (simp add: run_snoc inv_dl_step inv_core_run inv_core_new)
qed

lemma count_list_distinct:
  "distinct xs \<Longrightarrow> count_list xs k = (if k \<in> set xs then 1 else 0)"
  by (induction xs) auto

subsection \<open>Chains in reachable states\<close>

lemma cache_fst:
  "fst (cache_result_and_execute_waiters P r fp s) =
     (fp \<notin> downloading (info s) \<or> waiting (info s) fp = None)"
  by (simp add: cache_result_and_execute_waiters_def Let_def split: option.splits)

lemma reach_pending:
  assumes "n < length (chains (run P evs (new_session sp)))"
    and "pending (chains (run P evs (new_session sp)) ! n)"
  shows "c_fp (chains (run P evs (new_session sp)) ! n) \<in> downloading (info (run P evs (new_session sp)))"
    and "\<exists>ws. waiting (info (run P evs (new_session sp))) (c_fp (chains (run P evs (new_session sp)) ! n)) = Some ws"
proof -
  let ?s = "run P evs (new_session sp)"
  have I: "inv_core ?s" by (simp add: inv_core_run inv_core_new)
  show 1: "c_fp (chains ?s ! n) \<in> downloading (info ?s)"
    using I assms unfolding inv_core_def by metis
  have "dom (waiting (info ?s)) = downloading (info ?s)" using I by (simp add: inv_core_def)
  then show "\<exists>ws. waiting (info ?s) (c_fp (chains ?s ! n)) = Some ws"
    using 1 by auto
qed

subsection \<open>The barrier of an item\<close>

lemma fill_filled [simp]: "fill src r (Filled ok x) = Filled ok x"
  by (simp add: fill_def)

lemma fill_id: "Pending src \<notin> set sls \<Longrightarrow> map (fill src r) sls = sls"
  by (induction sls) (auto simp add: fill_def)

lemma fill_all_filled: "list_all is_filled sls \<Longrightarrow> map (fill src r) sls = sls"
  by (induction sls) (auto simp add: fill_def)

lemma fill_changes:
  assumes "list_all is_filled (map (fill src r) sls)" "\<not> list_all is_filled sls"
  shows "Pending src \<in> set sls"
proof (rule ccontr)
  assume "Pending src \<notin> set sls"
  then have "map (fill src r) sls = sls" by (rule fill_id)
  then show False using assms by simp
qed

lemma cbDeferred_fst:
  "fst (cbDeferred P src r dl) =
     dl\<lparr>dl_slots := map (fill src r) (dl_slots dl),
        dl_called := (if Pending src \<in> set (dl_slots dl) \<and>
                         list_all is_filled (map (fill src r) (dl_slots dl)) \<and> dl_called dl = None
                      then Some (item_completed P (map slot_entry (map (fill src r) (dl_slots dl)))
                                   (dl_item dl))
                      else dl_called dl)\<rparr>"
  by (simp add: cbDeferred_def Let_def fill_id)

lemma cbDeferred_snd:
  "snd (cbDeferred P src r dl) =
     (if Pending src \<in> set (dl_slots dl) \<and>
         list_all is_filled (map (fill src r) (dl_slots dl)) \<and> dl_called dl = None
      then [(dl_id dl, map slot_entry (map (fill src r) (dl_slots dl)))] else [])"
  by (simp add: cbDeferred_def Let_def)

lemma cbDeferred_all_fst:
  "fst (cbDeferred_all P src r dls) = map (\<lambda>dl. fst (cbDeferred P src r dl)) dls"
  by (induction dls) (simp_all add: case_prod_beta Let_def)

lemma cbDeferred_all_snd:
  "snd (cbDeferred_all P src r dls) = concat (map (\<lambda>dl. snd (cbDeferred P src r dl)) dls)"
  by (induction dls) (simp_all add: case_prod_beta Let_def)

lemma notify_dlists:
  "dlists (notify P src r s) = map (\<lambda>dl. fst (cbDeferred P src r dl)) (dlists s)"
  by (simp add: notify_def case_prod_beta cbDeferred_all_fst)

lemma notify_completed:
  "completed (notify P src r s) =
     completed s @ concat (map (\<lambda>dl. snd (cbDeferred P src r dl)) (dlists s))"
  by (simp add: notify_def case_prod_beta cbDeferred_all_snd)

lemma notify_slots:
  "d < length (dlists s) \<Longrightarrow>
   dl_slots (dlists (notify P src r s) ! d) = map (fill src r) (dl_slots (dlists s ! d))"
  "d < length (dlists s) \<Longrightarrow> dl_item (dlists (notify P src r s) ! d) = dl_item (dlists s ! d)"
  "d < length (dlists s) \<Longrightarrow> dl_id (dlists (notify P src r s) ! d) = dl_id (dlists s ! d)"
  "length (dlists (notify P src r s)) = length (dlists s)"
  by (simp_all add: notify_dlists cbDeferred_fst)

lemma new_log_mem:
  assumes ids: "\<forall>d < length dls. dl_id (dls ! d) = d"
  shows "x \<in> set (concat (map (\<lambda>dl. snd (cbDeferred P src r dl)) dls)) \<longleftrightarrow>
     (fst x < length dls \<and>
      Pending src \<in> set (dl_slots (dls ! fst x)) \<and>
      list_all is_filled (map (fill src r) (dl_slots (dls ! fst x))) \<and>
      dl_called (dls ! fst x) = None \<and>
      snd x = map slot_entry (map (fill src r) (dl_slots (dls ! fst x))))"
proof
  assume "x \<in> set (concat (map (\<lambda>dl. snd (cbDeferred P src r dl)) dls))"
  then obtain dl where dl: "dl \<in> set dls" "x \<in> set (snd (cbDeferred P src r dl))" by auto
  then obtain d where d: "d < length dls" "dls ! d = dl" by (auto simp add: in_set_conv_nth)
  have "dl_id dl = d" using ids d by auto
  then show "fst x < length dls \<and>
      Pending src \<in> set (dl_slots (dls ! fst x)) \<and>
      list_all is_filled (map (fill src r) (dl_slots (dls ! fst x))) \<and>
      dl_called (dls ! fst x) = None \<and>
      snd x = map slot_entry (map (fill src r) (dl_slots (dls ! fst x)))"
    using dl(2) d by (auto simp add: cbDeferred_snd split: if_splits)
next
  assume a: "fst x < length dls \<and>
      Pending src \<in> set (dl_slots (dls ! fst x)) \<and>
      list_all is_filled (map (fill src r) (dl_slots (dls ! fst x))) \<and>
      dl_called (dls ! fst x) = None \<and>
      snd x = map slot_entry (map (fill src r) (dl_slots (dls ! fst x)))"
  then have "dls ! fst x \<in> set dls" by simp
  moreover have "x \<in> set (snd (cbDeferred P src r (dls ! fst x)))"
    using a ids by (cases x) (simp add: cbDeferred_snd)
  ultimately show "x \<in> set (concat (map (\<lambda>dl. snd (cbDeferred P src r dl)) dls))"
    by auto
qed

lemma new_log_distinct:
  assumes ids: "\<forall>d < length dls. dl_id (dls ! d) = d"
  shows "distinct (map fst (concat (map (\<lambda>dl. snd (cbDeferred P src r dl)) dls))) \<and>
         set (map fst (concat (map (\<lambda>dl. snd (cbDeferred P src r dl)) dls))) \<subseteq> {..< length dls}"
  using ids
proof (induction dls rule: rev_induct)
  case Nil
  then show ?case by simp
next
  case (snoc dl dls)
  have "\<forall>d < length dls. dl_id (dls ! d) = d"
    using snoc.prems by (metis length_append_singleton less_Suc_eq nth_append)
  then have IH: "distinct (map fst (concat (map (\<lambda>dl. snd (cbDeferred P src r dl)) dls)))"
    "set (map fst (concat (map (\<lambda>dl. snd (cbDeferred P src r dl)) dls))) \<subseteq> {..< length dls}"
    using snoc.IH by auto
  have "dl_id dl = length dls" using snoc.prems by (metis length_append_singleton lessI nth_append_length)
  then have B: "map fst (snd (cbDeferred P src r dl)) = [] \<or>
      map fst (snd (cbDeferred P src r dl)) = [length dls]"
    by (simp add: cbDeferred_snd)
  define A where "A = map fst (concat (map (\<lambda>dl. snd (cbDeferred P src r dl)) dls))"
  define B where "B = map fst (snd (cbDeferred P src r dl))"
  have eq: "map fst (concat (map (\<lambda>dl. snd (cbDeferred P src r dl)) (dls @ [dl]))) = A @ B"
    by (simp add: A_def B_def)
  have A: "distinct A" "set A \<subseteq> {..< length dls}" using IH by (simp_all add: A_def)
  have Bc: "B = [] \<or> B = [length dls]" using B by (simp add: B_def)
  have "length dls \<notin> set A" using A(2) by auto
  then have "distinct (A @ B)" using A(1) Bc by auto
  moreover have "set (A @ B) \<subseteq> {..< length (dls @ [dl])}"
    using A(2) Bc by auto
  ultimately show ?case unfolding eq by blast
qed

lemma inv_barrier_notify:
  assumes B: "inv_barrier s"
  shows "inv_barrier (notify P src r s)"
proof -
  let ?s' = "notify P src r s"
  let ?new = "concat (map (\<lambda>dl. snd (cbDeferred P src r dl)) (dlists s))"
  have ids: "\<forall>d < length (dlists s). dl_id (dlists s ! d) = d"
    using B unfolding inv_barrier_def by blast
  have called: "dl_called (dlists s ! d) \<noteq> None \<longleftrightarrow> list_all is_filled (dl_slots (dlists s ! d))"
    if "d < length (dlists s)" for d
    using B that unfolding inv_barrier_def by blast
  have len: "length (dlists ?s') = length (dlists s)" by (simp add: notify_slots)
  have nth: "dlists ?s' ! d = fst (cbDeferred P src r (dlists s ! d))" if "d < length (dlists s)" for d
    using that by (simp add: notify_dlists)
  have comp: "completed ?s' = completed s @ ?new" by (rule notify_completed)
  have mem: "x \<in> set ?new \<longleftrightarrow>
     (fst x < length (dlists s) \<and>
      Pending src \<in> set (dl_slots (dlists s ! fst x)) \<and>
      list_all is_filled (map (fill src r) (dl_slots (dlists s ! fst x))) \<and>
      dl_called (dlists s ! fst x) = None \<and>
      snd x = map slot_entry (map (fill src r) (dl_slots (dlists s ! fst x))))" for x
    by (rule new_log_mem[OF ids])
  have slots: "dl_slots (dlists ?s' ! d) = map (fill src r) (dl_slots (dlists s ! d))"
    if "d < length (dlists s)" for d
    using that by (simp add: notify_slots)
  have 1: "dl_id (dlists ?s' ! d) = d \<and>
         (dl_called (dlists ?s' ! d) \<noteq> None \<longleftrightarrow> list_all is_filled (dl_slots (dlists ?s' ! d)))"
    if d: "d < length (dlists ?s')" for d
  proof -
    have d': "d < length (dlists s)" using d len by simp
    show ?thesis
    proof (cases "list_all is_filled (dl_slots (dlists s ! d))")
      case True
      then have "Pending src \<notin> set (dl_slots (dlists s ! d))"
        by (auto simp add: list_all_iff)
      then show ?thesis
        using ids called[OF d'] d' True by (simp add: nth cbDeferred_fst fill_id)
    next
      case False
      then have "dl_called (dlists s ! d) = None" using called[OF d'] by simp
      moreover have "Pending src \<in> set (dl_slots (dlists s ! d))"
        if "list_all is_filled (map (fill src r) (dl_slots (dlists s ! d)))"
        using that False by (rule fill_changes)
      ultimately show ?thesis
        using ids d' by (auto simp add: nth cbDeferred_fst)
    qed
  qed
  have old_new: "fst x \<notin> fst ` set (completed s)" if "x \<in> set ?new" for x
  proof
    assume "fst x \<in> fst ` set (completed s)"
    then obtain y where y: "y \<in> set (completed s)" "fst y = fst x" by auto
    then have "list_all is_filled (dl_slots (dlists s ! fst x))"
      using B unfolding inv_barrier_def by metis
    moreover have "fst x < length (dlists s)" "dl_called (dlists s ! fst x) = None"
      using that mem by auto
    ultimately show False using called by blast
  qed
  have 2: "distinct (map fst (completed ?s'))"
  proof -
    have "distinct (map fst (completed s))" using B unfolding inv_barrier_def by blast
    moreover have "distinct (map fst ?new)" using new_log_distinct[OF ids] by blast
    moreover have "set (map fst (completed s)) \<inter> set (map fst ?new) = {}"
    proof -
      have "a \<notin> set (map fst (completed s))" if "a \<in> set (map fst ?new)" for a
      proof -
        from that obtain x where "x \<in> set ?new" "fst x = a" by (metis (no_types, lifting) imageE list.set_map)
        then show ?thesis using old_new[of x] by simp
      qed
      then show ?thesis by blast
    qed
    ultimately show ?thesis unfolding comp by simp
  qed
  have 3: "fst x < length (dlists ?s') \<and>
         list_all is_filled (dl_slots (dlists ?s' ! fst x)) \<and>
         snd x = map slot_entry (dl_slots (dlists ?s' ! fst x))" if x: "x \<in> set (completed ?s')" for x
  proof (cases "x \<in> set (completed s)")
    case True
    then have o: "fst x < length (dlists s)" "list_all is_filled (dl_slots (dlists s ! fst x))"
      "snd x = map slot_entry (dl_slots (dlists s ! fst x))"
      using B unfolding inv_barrier_def by blast+
    then show ?thesis using len slots[OF o(1)] by (simp add: fill_all_filled)
  next
    case False
    then have "x \<in> set ?new" using x comp by auto
    then show ?thesis using mem[of x] len slots by auto
  qed
  have 4: "d \<in> fst ` set (completed ?s')"
    if d: "d < length (dlists ?s')" and f: "list_all is_filled (dl_slots (dlists ?s' ! d))" for d
  proof -
    have d': "d < length (dlists s)" using d len by simp
    show ?thesis
    proof (cases "list_all is_filled (dl_slots (dlists s ! d))")
      case True
      then have "d \<in> fst ` set (completed s)" using B d' unfolding inv_barrier_def by blast
      then show ?thesis unfolding comp by auto
    next
      case False
      then have c: "dl_called (dlists s ! d) = None" using called[OF d'] by simp
      have f': "list_all is_filled (map (fill src r) (dl_slots (dlists s ! d)))"
        using f slots[OF d'] by simp
      then have p: "Pending src \<in> set (dl_slots (dlists s ! d))"
        using False by (rule fill_changes)
      have "(d, map slot_entry (map (fill src r) (dl_slots (dlists s ! d)))) \<in> set ?new"
        using mem[of "(d, map slot_entry (map (fill src r) (dl_slots (dlists s ! d))))"] d' c f' p
        by simp
      then show ?thesis unfolding comp by force
    qed
  qed
  show ?thesis unfolding inv_barrier_def using 1 2 3 4 by blast
qed

lemma inv_barrier_frame:
  "dlists s' = dlists s \<Longrightarrow> completed s' = completed s \<Longrightarrow> inv_barrier s \<Longrightarrow> inv_barrier s'"
  by (simp add: inv_barrier_def)

lemma inv_barrier_fire_wad: "inv_barrier s \<Longrightarrow> inv_barrier (fire_wad P fp r w s)"
  unfolding fire_wad_def Let_def
  by (rule inv_barrier_notify) (erule inv_barrier_frame[rotated 2], simp_all)

lemma inv_barrier_fire_wads: "inv_barrier s \<Longrightarrow> inv_barrier (fire_wads P fp r ws s)"
  by (induction ws arbitrary: s) (simp_all add: inv_barrier_fire_wad)

lemma inv_barrier_cache:
  "inv_barrier s \<Longrightarrow> inv_barrier (snd (cache_result_and_execute_waiters P r fp s))"
  unfolding cache_result_and_execute_waiters_def Let_def
  by (auto split: option.splits intro!: inv_barrier_fire_wads elim: inv_barrier_frame[rotated 2])

lemma inv_barrier_chain_finish:
  assumes "inv_barrier s"
  shows "inv_barrier (chain_finish P n r s)"
proof -
  let ?c = "cache_result_and_execute_waiters P r (c_fp (chains s ! n)) s"
  let ?s2 = "if fst ?c then (snd ?c)\<lparr>errors_logged := errors_logged (snd ?c) + 1\<rparr> else snd ?c"
  have 1: "inv_barrier (snd ?c)" using assms by (rule inv_barrier_cache)
  have 2: "inv_barrier ?s2"
    by (rule inv_barrier_frame[OF _ _ 1]) simp_all
  have 3: "inv_barrier (notify P (OnDfd n) x ?s2)" for x
    using 2 by (rule inv_barrier_notify)
  show ?thesis
    unfolding chain_finish_def Let_def case_prod_beta
    by (auto split: option.splits intro: inv_barrier_frame[OF _ _ 2] inv_barrier_frame[OF _ _ 3])
qed

lemma inv_barrier_DeferredList:
  assumes B: "inv_barrier s"
  shows "inv_barrier (DeferredList P item ds s)"
proof -
  let ?s' = "DeferredList P item ds s"
  let ?n = "length (dlists s)"
  let ?slots = "map slot_of ds"
  have len: "length (dlists ?s') = Suc ?n" by (simp add: DeferredList_def Let_def)
  have old: "dlists ?s' ! d = dlists s ! d" if "d < ?n" for d
    using that by (simp add: DeferredList_def Let_def nth_append)
  have new: "dl_id (dlists ?s' ! ?n) = ?n" "dl_slots (dlists ?s' ! ?n) = ?slots"
    "dl_called (dlists ?s' ! ?n) \<noteq> None \<longleftrightarrow> list_all is_filled ?slots"
    by (simp_all add: DeferredList_def Let_def)
  have comp: "completed ?s' =
      completed s @ (if list_all is_filled ?slots then [(?n, map slot_entry ?slots)] else [])"
    by (simp add: DeferredList_def Let_def)
  have fresh: "?n \<notin> set (map fst (completed s))"
    using B unfolding inv_barrier_def by fastforce
  have 1: "dl_id (dlists ?s' ! d) = d \<and>
      (dl_called (dlists ?s' ! d) \<noteq> None \<longleftrightarrow> list_all is_filled (dl_slots (dlists ?s' ! d)))"
    if "d < length (dlists ?s')" for d
  proof (cases "d = ?n")
    case True
    then show ?thesis using new by simp
  next
    case False
    then have "d < ?n" using that len by simp
    then show ?thesis using B old unfolding inv_barrier_def by simp
  qed
  have 2: "distinct (map fst (completed ?s'))"
    using B fresh unfolding comp inv_barrier_def by simp
  have 3: "fst x < length (dlists ?s') \<and>
         list_all is_filled (dl_slots (dlists ?s' ! fst x)) \<and>
         snd x = map slot_entry (dl_slots (dlists ?s' ! fst x))" if x: "x \<in> set (completed ?s')" for x
  proof (cases "x \<in> set (completed s)")
    case True
    then have o: "fst x < ?n" "list_all is_filled (dl_slots (dlists s ! fst x))"
      "snd x = map slot_entry (dl_slots (dlists s ! fst x))"
      using B unfolding inv_barrier_def by blast+
    then show ?thesis using len old[OF o(1)] by simp
  next
    case False
    then have "list_all is_filled ?slots \<and> x = (?n, map slot_entry ?slots)"
      using x comp by (auto split: if_splits)
    then show ?thesis using len new by simp
  qed
  have 4: "d \<in> fst ` set (completed ?s')"
    if d: "d < length (dlists ?s')" and f: "list_all is_filled (dl_slots (dlists ?s' ! d))" for d
  proof (cases "d = ?n")
    case True
    then have "list_all is_filled ?slots" using f new by simp
    then show ?thesis unfolding comp True by force
  next
    case False
    then have d': "d < ?n" using d len by simp
    then have "d \<in> fst ` set (completed s)"
      using B f old[OF d'] unfolding inv_barrier_def by simp
    then show ?thesis unfolding comp by auto
  qed
  show ?thesis unfolding inv_barrier_def using 1 2 3 4 by blast
qed

lemma inv_barrier_step: "inv_barrier s \<Longrightarrow> inv_barrier (step P s e)"
proof (cases e)
  case (ProcessItem item)
  assume B: "inv_barrier s"
  show ?thesis
  proof (cases "extracted P item")
    case False
    have "inv_barrier (snd (submit_list P (submitted P item) s))"
      by (rule inv_barrier_frame[OF _ _ B]) simp_all
    then show ?thesis using False ProcessItem by (simp add: process_item_snd)
  next
    case True
    define s1 where "s1 = DeferredList P item (fst (submit_list P (submitted P item) s))
      (snd (submit_list P (submitted P item) s))"
    have "inv_barrier (snd (submit_list P (submitted P item) s))"
      by (rule inv_barrier_frame[OF _ _ B]) simp_all
    then have "inv_barrier s1" unfolding s1_def by (rule inv_barrier_DeferredList)
    then show ?thesis using ProcessItem True by (simp add: process_item_snd s1_def)
  qed
next
  case (Submit q)
  assume B: "inv_barrier s"
  have "inv_barrier (snd (snd (process_request P q s)))"
    by (rule inv_barrier_frame[OF _ _ B]) simp_all
  then show ?thesis using Submit by simp
next
  case (PreFetched n r)
  assume B: "inv_barrier s"
  have h: "inv_barrier (hooked n r s)" by (rule inv_barrier_frame[OF _ _ B]) simp_all
  have "inv_barrier (prefetched P n r s)"
  proof (cases "r = PyNone")
    case True
    show ?thesis unfolding True prefetched_None by (rule inv_barrier_frame[OF _ _ B]) simp_all
  next
    case False
    show ?thesis unfolding prefetched_short[OF False] using h by (rule inv_barrier_chain_finish)
  qed
  then show ?thesis using B PreFetched by simp
next
  case (Downloaded n r)
  assume B: "inv_barrier s"
  then show ?thesis using Downloaded
    by (simp add: download_done_def Let_def inv_barrier_chain_finish)
qed

lemma inv_barrier_run: "inv_barrier (run P evs (new_session sp))"
proof (induction evs rule: rev_induct)
  case Nil
  then show ?case by (simp add: run_Nil inv_barrier_def new_session_def)
next
  case (snoc e evs)
  then show ?case by (simp add: run_snoc inv_barrier_step)
qed

subsection \<open>Firing a list of waiters\<close>

lemma fills_filled [simp]: "fills out ws (Filled ok x) = Filled ok x"
  by (induction ws) simp_all

lemma fills_dfd [simp]: "fills out ws (Pending (OnDfd m)) = Pending (OnDfd m)"
  by (induction ws) (simp_all add: fill_def)

lemma fills_other: "w \<notin> wad_id ` set ws \<Longrightarrow> fills out ws (Pending (OnWad w)) = Pending (OnWad w)"
  by (induction ws) (auto simp add: fill_def)

lemma fills_hit:
  "distinct (map wad_id ws) \<Longrightarrow> wd \<in> set ws \<Longrightarrow>
   fills out ws (Pending (OnWad (wad_id wd))) =
     Filled (\<not> is_failure (addCallbacks (wad_cb wd) (wad_eb wd) out))
            (addCallbacks (wad_cb wd) (wad_eb wd) out)"
proof (induction ws)
  case Nil
  then show ?case by simp
next
  case (Cons w ws)
  show ?case
  proof (cases "wd = w")
    case True
    then show ?thesis by (simp add: fill_def)
  next
    case False
    then have "wd \<in> set ws" using Cons.prems by simp
    moreover from this have "wad_id w \<noteq> wad_id wd" using Cons.prems(1) by auto
    ultimately show ?thesis using Cons by (simp add: fill_def)
  qed
qed

lemma fire_wad_dlists:
  "d < length (dlists s) \<Longrightarrow>
   dl_slots (dlists (fire_wad P fp out w s) ! d) =
     map (fill (OnWad (wad_id w)) (addCallbacks (wad_cb w) (wad_eb w) out)) (dl_slots (dlists s ! d))"
  "d < length (dlists s) \<Longrightarrow> dl_item (dlists (fire_wad P fp out w s) ! d) = dl_item (dlists s ! d)"
  "length (dlists (fire_wad P fp out w s)) = length (dlists s)"
  by (simp_all add: fire_wad_def Let_def notify_slots)

lemma fire_wads_length [simp]: "length (dlists (fire_wads P fp out ws s)) = length (dlists s)"
  by (induction ws arbitrary: s) (simp_all add: fire_wad_dlists)

lemma fire_wads_dlists:
  "d < length (dlists s) \<Longrightarrow>
   dl_slots (dlists (fire_wads P fp out ws s) ! d) = map (fills out ws) (dl_slots (dlists s ! d)) \<and>
   dl_item (dlists (fire_wads P fp out ws s) ! d) = dl_item (dlists s ! d)"
proof (induction ws arbitrary: s)
  case Nil
  then show ?case by simp
next
  case (Cons w ws)
  have "d < length (dlists (fire_wad P fp out w s))" using Cons.prems by (simp add: fire_wad_dlists)
  from Cons.IH[OF this] show ?case using Cons.prems by (simp add: fire_wad_dlists o_def)
qed

lemma fire_wads_wad_result_other:
  "w \<notin> wad_id ` set ws \<Longrightarrow> wad_result (fire_wads P fp out ws s) w = wad_result s w"
  by (induction ws arbitrary: s) auto

lemma fire_wads_wad_result_hit:
  "distinct (map wad_id ws) \<Longrightarrow> wd \<in> set ws \<Longrightarrow>
   wad_result (fire_wads P fp out ws s) (wad_id wd) =
     Some (addCallbacks (wad_cb wd) (wad_eb wd) out)"
proof (induction ws arbitrary: s)
  case Nil
  then show ?case by simp
next
  case (Cons w ws)
  show ?case
  proof (cases "wd = w")
    case True
    then have "wad_id w \<notin> wad_id ` set ws" using Cons.prems(1) by auto
    then show ?thesis using True by (simp add: fire_wads_wad_result_other)
  next
    case False
    then show ?thesis using Cons by simp
  qed
qed

subsection \<open>Identities of waiters\<close>

lemma process_request_waiting:
  "waiting (info (snd (snd (process_request P q s)))) =
     (if downloaded (info s) (request_fingerprint P q) = None
      then (waiting (info s))(request_fingerprint P q \<mapsto>
             (case waiting (info s) (request_fingerprint P q) of None \<Rightarrow> [] | Some ws \<Rightarrow> ws) @
             [caller_wad (next_wad s) q])
      else waiting (info s))"
  by (auto simp add: process_request_def Let_def caller_wad_def caller_cb_def split: option.splits)

lemma process_request_next_wad:
  "next_wad (snd (snd (process_request P q s))) =
     (if downloaded (info s) (request_fingerprint P q) = None then next_wad s + 1 else next_wad s)"
  by (auto simp add: process_request_def Let_def split: option.splits)

lemma inv_wadsD1: "inv_wads s \<Longrightarrow> waiting (info s) k = Some ws \<Longrightarrow> distinct (map wad_id ws)"
  unfolding inv_wads_def by blast

lemma inv_wadsD2:
  "inv_wads s \<Longrightarrow> waiting (info s) k = Some ws \<Longrightarrow> w \<in> set ws \<Longrightarrow> wad_id w < next_wad s"
  unfolding inv_wads_def by blast

lemma inv_wadsD3:
  "inv_wads s \<Longrightarrow> waiting (info s) k = Some ws \<Longrightarrow> waiting (info s) k' = Some ws' \<Longrightarrow>
   w \<in> set ws \<Longrightarrow> w' \<in> set ws' \<Longrightarrow> wad_id w = wad_id w' \<Longrightarrow> k = k'"
  unfolding inv_wads_def by blast

lemma inv_wadsI:
  assumes "\<And>k ws. waiting (info s) k = Some ws \<Longrightarrow> distinct (map wad_id ws)"
    and "\<And>k ws w. waiting (info s) k = Some ws \<Longrightarrow> w \<in> set ws \<Longrightarrow> wad_id w < next_wad s"
    and "\<And>k k' ws ws' w w'. waiting (info s) k = Some ws \<Longrightarrow> waiting (info s) k' = Some ws' \<Longrightarrow>
           w \<in> set ws \<Longrightarrow> w' \<in> set ws' \<Longrightarrow> wad_id w = wad_id w' \<Longrightarrow> k = k'"
  shows "inv_wads s"
  unfolding inv_wads_def using assms by blast

lemma inv_wads_process_request:
  assumes W: "inv_wads s"
  shows "inv_wads (snd (snd (process_request P q s)))"
proof (cases "downloaded (info s) (request_fingerprint P q)")
  case (Some y)
  have "waiting (info (snd (snd (process_request P q s)))) = waiting (info s)"
    "next_wad (snd (snd (process_request P q s))) = next_wad s"
    using Some by (simp_all add: process_request_waiting process_request_next_wad)
  then show ?thesis using W by (simp add: inv_wads_def)
next
  case None
  let ?fp = "request_fingerprint P q"
  let ?old = "case waiting (info s) ?fp of None \<Rightarrow> [] | Some ws \<Rightarrow> ws"
  let ?s' = "snd (snd (process_request P q s))"
  have w': "waiting (info ?s') = (waiting (info s))(?fp \<mapsto> ?old @ [caller_wad (next_wad s) q])"
    using None by (simp add: process_request_waiting)
  have n': "next_wad ?s' = Suc (next_wad s)" using None by (simp add: process_request_next_wad)
  have oldlt: "wad_id w < next_wad s" if "w \<in> set ?old" for w
  proof (cases "waiting (info s) ?fp")
    case None
    then show ?thesis using that by simp
  next
    case (Some ws0)
    then show ?thesis using that inv_wadsD2[OF W Some] by simp
  qed
  have olddist: "distinct (map wad_id ?old)"
  proof (cases "waiting (info s) ?fp")
    case None
    then show ?thesis by simp
  next
    case (Some ws0)
    then show ?thesis using inv_wadsD1[OF W Some] by simp
  qed
  have newid: "wad_id (caller_wad (next_wad s) q) = next_wad s" by (simp add: caller_wad_def)
  have mem: "w = caller_wad (next_wad s) q \<and> k = ?fp \<or>
             (\<exists>ws0. waiting (info s) k = Some ws0 \<and> w \<in> set ws0)"
    if a: "waiting (info ?s') k = Some ws" "w \<in> set ws" for k ws w
  proof (cases "k = ?fp")
    case True
    then have ws: "ws = ?old @ [caller_wad (next_wad s) q]" using a(1) w' by simp
    show ?thesis
    proof (cases "w = caller_wad (next_wad s) q")
      case True
      then show ?thesis using \<open>k = ?fp\<close> by simp
    next
      case False
      then have "w \<in> set ?old" using a(2) ws by simp
      then show ?thesis using \<open>k = ?fp\<close> by (cases "waiting (info s) ?fp") simp_all
    qed
  next
    case False
    then have "waiting (info s) k = Some ws" using a(1) w' by simp
    then show ?thesis using a(2) by blast
  qed
  show ?thesis
  proof (rule inv_wadsI)
    fix k ws assume a: "waiting (info ?s') k = Some ws"
    show "distinct (map wad_id ws)"
    proof (cases "k = ?fp")
      case True
      then have ws: "ws = ?old @ [caller_wad (next_wad s) q]" using a w' by simp
      have "next_wad s \<notin> set (map wad_id ?old)" using oldlt by fastforce
      then show ?thesis unfolding ws using olddist newid by simp
    next
      case False
      then have "waiting (info s) k = Some ws" using a w' by simp
      then show ?thesis by (rule inv_wadsD1[OF W])
    qed
  next
    fix k ws w assume a: "waiting (info ?s') k = Some ws" "w \<in> set ws"
    from mem[OF a] show "wad_id w < next_wad ?s'"
    proof (elim disjE conjE exE)
      assume "w = caller_wad (next_wad s) q"
      then show ?thesis using n' newid by simp
    next
      fix ws0 assume "waiting (info s) k = Some ws0" "w \<in> set ws0"
      then have "wad_id w < next_wad s" by (rule inv_wadsD2[OF W])
      then show ?thesis using n' by simp
    qed
  next
    fix k k' ws ws' w w'
    assume a: "waiting (info ?s') k = Some ws" "waiting (info ?s') k' = Some ws'" "w \<in> set ws"
      "w' \<in> set ws'" "wad_id w = wad_id w'"
    from mem[OF a(1) a(3)] mem[OF a(2) a(4)] show "k = k'"
    proof (elim disjE conjE exE)
      assume "k = ?fp" "k' = ?fp"
      then show ?thesis by simp
    next
      fix ws0 assume "w = caller_wad (next_wad s) q" "waiting (info s) k' = Some ws0" "w' \<in> set ws0"
      then show ?thesis using inv_wadsD2[OF W, of k' ws0 w'] a(5) newid by simp
    next
      fix ws0 assume "w' = caller_wad (next_wad s) q" "waiting (info s) k = Some ws0" "w \<in> set ws0"
      then show ?thesis using inv_wadsD2[OF W, of k ws0 w] a(5) newid by simp
    next
      fix ws0 ws1 assume "waiting (info s) k = Some ws0" "w \<in> set ws0"
        "waiting (info s) k' = Some ws1" "w' \<in> set ws1"
      then show ?thesis using a(5) inv_wadsD3[OF W] by blast
    qed
  qed
qed

lemma inv_wads_submit_list: "inv_wads s \<Longrightarrow> inv_wads (snd (submit_list P rs s))"
proof (induction rs arbitrary: s)
  case Nil
  then show ?case by simp
next
  case (Cons r rs)
  then show ?case by (simp only: submit_list_snd_Cons inv_wads_process_request)
qed

lemma inv_wads_frame:
  "waiting (info s') = waiting (info s) \<Longrightarrow> next_wad s' = next_wad s \<Longrightarrow> inv_wads s \<Longrightarrow> inv_wads s'"
  by (simp add: inv_wads_def)

lemma inv_wads_remove:
  assumes W: "inv_wads s" and w: "waiting (info s') = (waiting (info s))(fp := None)"
    and n: "next_wad s' = next_wad s"
  shows "inv_wads s'"
proof -
  have sub: "waiting (info s) k = Some ws" if "waiting (info s') k = Some ws" for k ws
    using that w by (auto split: if_splits)
  show ?thesis
  proof (rule inv_wadsI)
    fix k ws assume "waiting (info s') k = Some ws"
    then show "distinct (map wad_id ws)" using inv_wadsD1[OF W] sub by blast
  next
    fix k ws w assume "waiting (info s') k = Some ws" "w \<in> set ws"
    then show "wad_id w < next_wad s'" using inv_wadsD2[OF W] sub n by metis
  next
    fix k k' ws ws' w w'
    assume "waiting (info s') k = Some ws" "waiting (info s') k' = Some ws'" "w \<in> set ws"
      "w' \<in> set ws'" "wad_id w = wad_id w'"
    then show "k = k'" using inv_wadsD3[OF W] sub by metis
  qed
qed

subsection \<open>Slots and the requests they stand for\<close>

lemma slot_ok_mono:
  assumes d: "\<And>k out. downloaded (info s) k = Some out \<Longrightarrow> downloaded (info s') k = Some out"
    and w: "\<And>k ws. waiting (info s) k = Some ws \<Longrightarrow>
              \<exists>ws'. waiting (info s') k = Some ws' \<and> set ws \<subseteq> set ws'"
    and c: "length (chains s) \<le> length (chains s')"
      "\<And>m. m < length (chains s) \<Longrightarrow> c_fp (chains s' ! m) = c_fp (chains s ! m) \<and>
          pending (chains s' ! m) = pending (chains s ! m) \<and> c_wad (chains s' ! m) = c_wad (chains s ! m)"
    and ok: "slot_ok P s q sl"
  shows "slot_ok P s' q sl"
proof (cases sl)
  case (Filled b r)
  then show ?thesis using ok d unfolding slot_ok_def by auto
next
  case (Pending src)
  show ?thesis
  proof (cases src)
    case (OnWad x)
    then obtain ws where "waiting (info s) (request_fingerprint P q) = Some ws" "caller_wad x q \<in> set ws"
      using ok Pending unfolding slot_ok_def by auto
    then show ?thesis using w[of "request_fingerprint P q" ws] Pending OnWad
      unfolding slot_ok_def by auto
  next
    case (OnDfd m)
    then have m: "m < length (chains s)" "c_fp (chains s ! m) = request_fingerprint P q"
      "pending (chains s ! m)"
      and "\<exists>ws. waiting (info s) (request_fingerprint P q) = Some ws \<and>
                caller_wad (c_wad (chains s ! m)) q \<in> set ws"
      using ok Pending unfolding slot_ok_def by auto
    then obtain ws where ws: "waiting (info s) (request_fingerprint P q) = Some ws"
      "caller_wad (c_wad (chains s ! m)) q \<in> set ws" by blast
    from w[OF ws(1)] obtain ws' where ws': "waiting (info s') (request_fingerprint P q) = Some ws'"
      "set ws \<subseteq> set ws'" by blast
    show ?thesis
      unfolding slot_ok_def Pending OnDfd using m c(1) c(2)[OF m(1)] ws ws' by auto
  qed
qed

lemma slot_ok_process_request:
  assumes "slot_ok P s q' sl"
  shows "slot_ok P (snd (snd (process_request P q s))) q' sl"
proof (rule slot_ok_mono[OF _ _ _ _ assms])
  fix k out assume "downloaded (info s) k = Some out"
  then show "downloaded (info (snd (snd (process_request P q s)))) k = Some out" by simp
next
  fix k ws assume "waiting (info s) k = Some ws"
  then show "\<exists>ws'. waiting (info (snd (snd (process_request P q s)))) k = Some ws' \<and> set ws \<subseteq> set ws'"
    by (auto simp add: process_request_waiting)
next
  show "length (chains s) \<le> length (chains (snd (snd (process_request P q s))))"
    using process_request_chains[of P q s] by auto
next
  fix m assume "m < length (chains s)"
  then show "c_fp (chains (snd (snd (process_request P q s))) ! m) = c_fp (chains s ! m) \<and>
          pending (chains (snd (snd (process_request P q s))) ! m) = pending (chains s ! m) \<and>
          c_wad (chains (snd (snd (process_request P q s))) ! m) = c_wad (chains s ! m)"
    using process_request_chains[of P q s] by (auto simp add: nth_append)
qed

lemma slot_ok_submit_list:
  "slot_ok P s q' sl \<Longrightarrow> slot_ok P (snd (submit_list P rs s)) q' sl"
proof (induction rs arbitrary: s)
  case Nil
  then show ?case by simp
next
  case (Cons r rs)
  then show ?case by (simp only: submit_list_snd_Cons slot_ok_process_request)
qed

lemma slot_ok_new:
  "slot_ok P (snd (snd (process_request P q s))) q (slot_of (fst (snd (process_request P q s))))"
proof (cases "downloaded (info s) (request_fingerprint P q)")
  case (Some cached)
  then show ?thesis
    by (simp add: process_request_cached slot_ok_def caller_cb_def)
next
  case None
  show ?thesis
  proof (cases "request_fingerprint P q \<in> downloading (info s)")
    case True
    show ?thesis
      by (simp add: process_request_inflight[OF None True] slot_ok_def caller_wad_def caller_cb_def)
  next
    case False
    show ?thesis
      by (simp add: process_request_unseen[OF None False] slot_ok_def caller_wad_def caller_cb_def
            pending_def)
  qed
qed

lemma submit_list_fst_Cons:
  "fst (submit_list P (r # rs) s) =
     fst (snd (process_request P r s)) # fst (submit_list P rs (snd (snd (process_request P r s))))"
  by (simp add: case_prod_beta Let_def)

lemma submit_list_length: "length (fst (submit_list P rs s)) = length rs"
  by (induction rs arbitrary: s) (simp_all add: case_prod_beta Let_def)

lemma submit_list_slots:
  "list_all2 (slot_ok P (snd (submit_list P rs s))) rs (map slot_of (fst (submit_list P rs s)))"
proof (induction rs arbitrary: s)
  case Nil
  then show ?case by simp
next
  case (Cons r rs)
  let ?s1 = "snd (snd (process_request P r s))"
  have "slot_ok P (snd (submit_list P rs ?s1)) r (slot_of (fst (snd (process_request P r s))))"
    by (rule slot_ok_submit_list) (rule slot_ok_new)
  then show ?case using Cons.IH[of ?s1]
    by (simp only: submit_list_fst_Cons submit_list_snd_Cons list.map list_all2_Cons)
qed

lemma slot_ok_frame:
  "info s' = info s \<Longrightarrow> chains s' = chains s \<Longrightarrow> slot_ok P s' q sl = slot_ok P s q sl"
  unfolding slot_ok_def by (simp split: slot.splits source.splits)

lemma inv_slots_submit_list:
  assumes "inv_slots P s"
  shows "inv_slots P (snd (submit_list P rs s))"
  unfolding inv_slots_def
proof (intro allI impI)
  fix d assume "d < length (dlists (snd (submit_list P rs s)))"
  then have d: "d < length (dlists s)" by simp
  then have a: "extracted P (dl_item (dlists s ! d))"
    "list_all2 (slot_ok P s) (submitted P (dl_item (dlists s ! d))) (dl_slots (dlists s ! d))"
    using assms unfolding inv_slots_def by blast+
  have "list_all2 (slot_ok P (snd (submit_list P rs s))) (submitted P (dl_item (dlists s ! d)))
      (dl_slots (dlists s ! d))"
    using a(2) by (rule list_all2_mono) (rule slot_ok_submit_list)
  then show "extracted P (dl_item (dlists (snd (submit_list P rs s)) ! d)) \<and>
        list_all2 (slot_ok P (snd (submit_list P rs s)))
          (submitted P (dl_item (dlists (snd (submit_list P rs s)) ! d)))
          (dl_slots (dlists (snd (submit_list P rs s)) ! d))"
    using a(1) by simp
qed

lemma inv_slots_process_request:
  assumes "inv_slots P s"
  shows "inv_slots P (snd (snd (process_request P q s)))"
  using inv_slots_submit_list[OF assms, of "[q]"] by (simp add: case_prod_beta Let_def)

lemma DeferredList_dlists:
  "length (dlists (DeferredList P item ds s)) = Suc (length (dlists s))"
  "d < length (dlists s) \<Longrightarrow> dlists (DeferredList P item ds s) ! d = dlists s ! d"
  "d = length (dlists s) \<Longrightarrow> dl_item (dlists (DeferredList P item ds s) ! d) = item"
  "d = length (dlists s) \<Longrightarrow> dl_slots (dlists (DeferredList P item ds s) ! d) = map slot_of ds"
  by (simp_all add: DeferredList_def Let_def nth_append)

lemma inv_slots_process_item:
  assumes S: "inv_slots P s"
  shows "inv_slots P (snd (process_item P item s))"
proof (cases "extracted P item")
  case False
  then show ?thesis using S by (simp add: process_item_snd inv_slots_submit_list)
next
  case ex: True
  let ?s2 = "snd (submit_list P (submitted P item) s)"
  let ?ds = "fst (submit_list P (submitted P item) s)"
  define s1 where "s1 = DeferredList P item ?ds ?s2"
  have S2: "inv_slots P ?s2" using S by (rule inv_slots_submit_list)
  have fr: "slot_ok P s1 q sl = slot_ok P ?s2 q sl" for q sl
    unfolding s1_def by (rule slot_ok_frame) simp_all
  have "inv_slots P s1"
    unfolding inv_slots_def
  proof (intro allI impI)
    fix d assume d: "d < length (dlists s1)"
    show "extracted P (dl_item (dlists s1 ! d)) \<and>
        list_all2 (slot_ok P s1) (submitted P (dl_item (dlists s1 ! d))) (dl_slots (dlists s1 ! d))"
    proof (cases "d = length (dlists ?s2)")
      case True
      have "list_all2 (slot_ok P ?s2) (submitted P item) (map slot_of ?ds)"
        by (rule submit_list_slots)
      then have "list_all2 (slot_ok P s1) (submitted P item) (map slot_of ?ds)"
        by (rule list_all2_mono) (simp add: fr)
      then show ?thesis using ex True by (simp add: s1_def DeferredList_dlists)
    next
      case False
      then have d': "d < length (dlists ?s2)" using d by (simp add: s1_def DeferredList_dlists)
      then have b: "extracted P (dl_item (dlists ?s2 ! d))"
        "list_all2 (slot_ok P ?s2) (submitted P (dl_item (dlists ?s2 ! d))) (dl_slots (dlists ?s2 ! d))"
        using S2 unfolding inv_slots_def by blast+
      have "list_all2 (slot_ok P s1) (submitted P (dl_item (dlists ?s2 ! d))) (dl_slots (dlists ?s2 ! d))"
        using b(2) by (rule list_all2_mono) (simp add: fr)
      then show ?thesis using b(1) d' by (simp add: s1_def DeferredList_dlists)
    qed
  qed
  then show ?thesis using ex by (simp add: process_item_snd s1_def)
qed

lemma cache_dlists:
  assumes "fp \<in> downloading (info s)" "waiting (info s) fp = Some ws"
  shows "length (dlists (snd (cache_result_and_execute_waiters P r fp s))) = length (dlists s)"
    and "d < length (dlists s) \<Longrightarrow>
         dl_slots (dlists (snd (cache_result_and_execute_waiters P r fp s)) ! d) =
           map (fills (sanitize r) ws) (dl_slots (dlists s ! d))"
    and "d < length (dlists s) \<Longrightarrow>
         dl_item (dlists (snd (cache_result_and_execute_waiters P r fp s)) ! d) = dl_item (dlists s ! d)"
    and "distinct (map wad_id ws) \<Longrightarrow> wd \<in> set ws \<Longrightarrow>
         wad_result (snd (cache_result_and_execute_waiters P r fp s)) (wad_id wd) =
           Some (addCallbacks (wad_cb wd) (wad_eb wd) (sanitize r))"
  using assms
  by (simp_all add: cache_result_and_execute_waiters_def Let_def fire_wads_dlists
        fire_wads_wad_result_hit)

lemma chain_finish_dlists:
  assumes "c_fp (chains s ! n) \<in> downloading (info s)"
    "waiting (info s) (c_fp (chains s ! n)) = Some ws"
  shows "length (dlists (chain_finish P n r s)) = length (dlists s)"
    and "d < length (dlists s) \<Longrightarrow>
         dl_slots (dlists (chain_finish P n r s) ! d) =
           map (\<lambda>sl. own_fill P n r s (fills (sanitize r) ws sl)) (dl_slots (dlists s ! d))"
    and "d < length (dlists s) \<Longrightarrow>
         dl_item (dlists (chain_finish P n r s) ! d) = dl_item (dlists s ! d)"
proof -
  let ?c = "cache_result_and_execute_waiters P r (c_fp (chains s ! n)) s"
  let ?s2 = "if fst ?c then (snd ?c)\<lparr>errors_logged := errors_logged (snd ?c) + 1\<rparr> else snd ?c"
  have s2: "dlists ?s2 = dlists (snd ?c)" "wad_result ?s2 = wad_result (snd ?c)" by simp_all
  note cd = cache_dlists[OF assms, where P = P and r = r]
  have cf: "dlists (chain_finish P n r s) =
      (case wad_result (snd ?c) (c_wad (chains s ! n)) of
         None \<Rightarrow> dlists (snd ?c)
       | Some x \<Rightarrow> dlists (notify P (OnDfd n) x ?s2))"
    by (simp add: chain_finish_def Let_def case_prod_beta split: option.splits)
  show "length (dlists (chain_finish P n r s)) = length (dlists s)"
    unfolding cf using cd(1) by (simp add: notify_slots split: option.splits)
  show "dl_slots (dlists (chain_finish P n r s) ! d) =
           map (\<lambda>sl. own_fill P n r s (fills (sanitize r) ws sl)) (dl_slots (dlists s ! d))"
    if "d < length (dlists s)"
    unfolding cf own_fill_def using cd(1) cd(2)[OF that] that
    by (simp add: notify_slots o_def split: option.splits)
  show "dl_item (dlists (chain_finish P n r s) ! d) = dl_item (dlists s ! d)"
    if "d < length (dlists s)"
    unfolding cf using cd(1) cd(3)[OF that] that
    by (simp add: notify_slots split: option.splits)
qed

lemma slot_resolve:
  assumes I: "inv_core s" and W: "inv_wads s"
    and n: "n < length (chains s)" and p: "pending (chains s ! n)"
    and ws: "waiting (info s) (c_fp (chains s ! n)) = Some ws"
    and ok: "slot_ok P s q sl"
  shows "slot_ok P (chain_finish P n r s) q (own_fill P n r s (fills (sanitize r) ws sl))"
proof -
  let ?fp = "c_fp (chains s ! n)" and ?k = "request_fingerprint P q"
  let ?s' = "chain_finish P n r s" and ?out = "sanitize r"
  have fpin: "?fp \<in> downloading (info s)" using I n p unfolding inv_core_def by metis
  have nd: "downloaded (info s) ?fp = None" using I fpin unfolding inv_core_def by auto
  have dist: "distinct (map c_fp (chains s))" using I by (simp add: inv_core_def)
  have wdist: "distinct (map wad_id ws)" using inv_wadsD1[OF W ws] .
  have info': "info ?s' = (info s)\<lparr>downloading := downloading (info s) - {?fp},
                     downloaded := (downloaded (info s))(?fp \<mapsto> ?out),
                     waiting := (waiting (info s))(?fp := None)\<rparr>"
    using fpin by (simp add: chain_finish_info cache_info)
  have ch': "chains ?s' = (chains s)[n := (chains s ! n)\<lparr>c_stage := finish_stage P n r s\<rparr>]"
    by (rule chain_finish_chains)
  have own_filled: "own_fill P n r s (Filled b x) = Filled b x" for b x
    by (simp add: own_fill_def split: option.splits)
  have own_wad: "own_fill P n r s (Pending (OnWad w)) = Pending (OnWad w)" for w
    by (simp add: own_fill_def fill_def split: option.splits)
  have own_other: "own_fill P n r s (Pending (OnDfd m)) = Pending (OnDfd m)" if "m \<noteq> n" for m
    using that by (simp add: own_fill_def fill_def split: option.splits)
  show ?thesis
  proof (cases sl)
    case (Filled b x)
    then obtain out where o: "b = (\<not> is_failure x)" "downloaded (info s) ?k = Some out"
      "x = addCallbacks (caller_cb q) (errback q) out"
      using ok unfolding slot_ok_def by auto
    then have "?k \<noteq> ?fp" using nd by auto
    then have "downloaded (info ?s') ?k = Some out" using o(2) info' by simp
    then show ?thesis using Filled o by (simp add: own_filled slot_ok_def)
  next
    case (Pending src)
    show ?thesis
    proof (cases src)
      case (OnWad w)
      then obtain wsk where k: "waiting (info s) ?k = Some wsk" "caller_wad w q \<in> set wsk"
        using ok Pending unfolding slot_ok_def by auto
      show ?thesis
      proof (cases "?k = ?fp")
        case True
        then have mem: "caller_wad w q \<in> set ws" using k ws by simp
        have "fills ?out ws (Pending (OnWad w)) =
            Filled (\<not> is_failure (addCallbacks (caller_cb q) (errback q) ?out))
                   (addCallbacks (caller_cb q) (errback q) ?out)"
          using fills_hit[OF wdist mem, where out = ?out] by (simp add: caller_wad_def)
        moreover have "downloaded (info ?s') ?k = Some ?out" using True info' by simp
        ultimately show ?thesis using Pending OnWad by (simp add: own_filled slot_ok_def)
      next
        case False
        have "w \<notin> wad_id ` set ws"
        proof
          assume "w \<in> wad_id ` set ws"
          then obtain wd where wd: "wd \<in> set ws" "wad_id wd = w" by auto
          have "wad_id (caller_wad w q) = wad_id wd" using wd by (simp add: caller_wad_def)
          from inv_wadsD3[OF W k(1) ws k(2) wd(1) this] show False using False by simp
        qed
        then have "fills ?out ws (Pending (OnWad w)) = Pending (OnWad w)" by (rule fills_other)
        moreover have "waiting (info ?s') ?k = Some wsk" using False k(1) info' by simp
        ultimately show ?thesis using Pending OnWad k(2) by (simp add: own_wad slot_ok_def)
      qed
    next
      case (OnDfd m)
      then have m: "m < length (chains s)" "c_fp (chains s ! m) = ?k" "pending (chains s ! m)"
        and "\<exists>wsk. waiting (info s) ?k = Some wsk \<and> caller_wad (c_wad (chains s ! m)) q \<in> set wsk"
        using ok Pending unfolding slot_ok_def by auto
      then obtain wsk where k: "waiting (info s) ?k = Some wsk"
        "caller_wad (c_wad (chains s ! m)) q \<in> set wsk" by blast
      show ?thesis
      proof (cases "m = n")
        case True
        then have kfp: "?k = ?fp" using m(2) by simp
        then have mem: "caller_wad (c_wad (chains s ! n)) q \<in> set ws" using k ws True by simp
        have "wad_result (snd (cache_result_and_execute_waiters P r ?fp s))
                (wad_id (caller_wad (c_wad (chains s ! n)) q)) =
              Some (addCallbacks (wad_cb (caller_wad (c_wad (chains s ! n)) q))
                     (wad_eb (caller_wad (c_wad (chains s ! n)) q)) ?out)"
          by (rule cache_dlists(4)[OF fpin ws wdist mem])
        then have "own_fill P n r s (Pending (OnDfd n)) =
            Filled (\<not> is_failure (addCallbacks (caller_cb q) (errback q) ?out))
                   (addCallbacks (caller_cb q) (errback q) ?out)"
          by (simp add: own_fill_def caller_wad_def fill_def)
        moreover have "downloaded (info ?s') ?k = Some ?out" using kfp info' by simp
        ultimately show ?thesis using Pending OnDfd True by (simp add: slot_ok_def)
      next
        case False
        have "c_fp (chains s ! m) \<noteq> c_fp (chains s ! n)"
          using dist False m(1) n by (metis length_map nth_eq_iff_index_eq nth_map)
        then have ne: "?k \<noteq> ?fp" using m(2) by simp
        have "waiting (info ?s') ?k = Some wsk" using ne k(1) info' by simp
        moreover have "chains ?s' ! m = chains s ! m" using ch' False by simp
        moreover have "length (chains ?s') = length (chains s)" using ch' by simp
        ultimately show ?thesis
          using Pending OnDfd m k(2) False by (simp add: own_other slot_ok_def)
      qed
    qed
  qed
qed

lemma inv_slots_chain_finish:
  assumes I: "inv_core s" and W: "inv_wads s" and S: "inv_slots P s"
    and n: "n < length (chains s)" and p: "pending (chains s ! n)"
  shows "inv_slots P (chain_finish P n r s)"
proof -
  let ?fp = "c_fp (chains s ! n)"
  have fpin: "?fp \<in> downloading (info s)" using I n p unfolding inv_core_def by metis
  moreover have "dom (waiting (info s)) = downloading (info s)" using I by (simp add: inv_core_def)
  ultimately obtain ws where ws: "waiting (info s) ?fp = Some ws" by auto
  note cd = chain_finish_dlists[OF fpin ws, where P = P and r = r]
  show ?thesis
    unfolding inv_slots_def
  proof (intro allI impI)
    fix d assume "d < length (dlists (chain_finish P n r s))"
    then have d: "d < length (dlists s)" using cd(1) by simp
    then have a: "extracted P (dl_item (dlists s ! d))"
      "list_all2 (slot_ok P s) (submitted P (dl_item (dlists s ! d))) (dl_slots (dlists s ! d))"
      using S unfolding inv_slots_def by blast+
    have "list_all2 (\<lambda>q sl. slot_ok P (chain_finish P n r s) q
              (own_fill P n r s (fills (sanitize r) ws sl)))
            (submitted P (dl_item (dlists s ! d))) (dl_slots (dlists s ! d))"
      using a(2) by (rule list_all2_mono) (rule slot_resolve[OF I W n p ws])
    then have "list_all2 (slot_ok P (chain_finish P n r s)) (submitted P (dl_item (dlists s ! d)))
        (dl_slots (dlists (chain_finish P n r s) ! d))"
      unfolding cd(2)[OF d] by (simp add: list_all2_map2)
    then show "extracted P (dl_item (dlists (chain_finish P n r s) ! d)) \<and>
        list_all2 (slot_ok P (chain_finish P n r s))
          (submitted P (dl_item (dlists (chain_finish P n r s) ! d)))
          (dl_slots (dlists (chain_finish P n r s) ! d))"
      using a(1) cd(3)[OF d] by simp
  qed
qed

lemma inv_wads_chain_finish:
  assumes "inv_wads s"
  shows "inv_wads (chain_finish P n r s)"
proof (cases "c_fp (chains s ! n) \<in> downloading (info s)")
  case True
  show ?thesis
    by (rule inv_wads_remove[OF assms, where fp = "c_fp (chains s ! n)"])
       (simp_all add: chain_finish_info cache_info True)
next
  case False
  show ?thesis
    by (rule inv_wads_frame[OF _ _ assms]) (simp_all add: chain_finish_info cache_info False)
qed

lemma inv_slots_chains_upd:
  assumes S: "inv_slots P s" and i: "info s' = info s" and dl: "dlists s' = dlists s"
    and len: "length (chains s') = length (chains s)"
    and c: "\<And>m. m < length (chains s) \<Longrightarrow> c_fp (chains s' ! m) = c_fp (chains s ! m) \<and>
          pending (chains s' ! m) = pending (chains s ! m) \<and> c_wad (chains s' ! m) = c_wad (chains s ! m)"
  shows "inv_slots P s'"
  unfolding inv_slots_def
proof (intro allI impI)
  fix d assume "d < length (dlists s')"
  then have d: "d < length (dlists s)" using dl by simp
  then have a: "extracted P (dl_item (dlists s ! d))"
    "list_all2 (slot_ok P s) (submitted P (dl_item (dlists s ! d))) (dl_slots (dlists s ! d))"
    using S unfolding inv_slots_def by blast+
  have "slot_ok P s' q sl" if "slot_ok P s q sl" for q sl
    by (rule slot_ok_mono[OF _ _ _ _ that]) (use i len c in auto)
  then have "list_all2 (slot_ok P s') (submitted P (dl_item (dlists s ! d))) (dl_slots (dlists s ! d))"
    using a(2) by (rule list_all2_mono[rotated])
  then show "extracted P (dl_item (dlists s' ! d)) \<and>
        list_all2 (slot_ok P s') (submitted P (dl_item (dlists s' ! d))) (dl_slots (dlists s' ! d))"
    using a(1) dl by simp
qed

lemma nth_upd_fields:
  "m < length cs \<Longrightarrow> c_fp c = c_fp (cs ! n) \<Longrightarrow> pending c = pending (cs ! n) \<Longrightarrow>
   c_wad c = c_wad (cs ! n) \<Longrightarrow>
   c_fp (cs[n := c] ! m) = c_fp (cs ! m) \<and> pending (cs[n := c] ! m) = pending (cs ! m) \<and>
   c_wad (cs[n := c] ! m) = c_wad (cs ! m)"
  by (cases "m = n") simp_all

lemma inv_slots_hooked: "inv_slots P s \<Longrightarrow> inv_slots P (hooked n r s)"
  by (rule inv_slots_chains_upd) (simp_all add: pending_def)

lemma inv_wads_step: "inv_wads s \<Longrightarrow> inv_wads (step P s e)"
proof (cases e)
  case (ProcessItem item)
  assume W: "inv_wads s"
  show ?thesis
  proof (cases "extracted P item")
    case False
    then show ?thesis using W ProcessItem by (simp add: process_item_snd inv_wads_submit_list)
  next
    case True
    define s1 where "s1 = DeferredList P item (fst (submit_list P (submitted P item) s))
      (snd (submit_list P (submitted P item) s))"
    have "inv_wads s1"
      unfolding s1_def by (rule inv_wads_frame[OF _ _ inv_wads_submit_list[OF W]]) simp_all
    then show ?thesis using ProcessItem True by (simp add: process_item_snd s1_def)
  qed
next
  case (Submit q)
  assume "inv_wads s"
  then show ?thesis using Submit by (simp add: inv_wads_process_request)
next
  case (PreFetched n r)
  assume W: "inv_wads s"
  have h: "inv_wads (hooked n r s)" by (rule inv_wads_frame[OF _ _ W]) simp_all
  have "inv_wads (prefetched P n r s)"
  proof (cases "r = PyNone")
    case True
    show ?thesis unfolding True prefetched_None by (rule inv_wads_frame[OF _ _ W]) simp_all
  next
    case False
    show ?thesis unfolding prefetched_short[OF False] using h by (rule inv_wads_chain_finish)
  qed
  then show ?thesis using W PreFetched by simp
next
  case (Downloaded n r)
  assume "inv_wads s"
  then show ?thesis using Downloaded by (simp add: download_done_def Let_def inv_wads_chain_finish)
qed

lemma inv_slots_step:
  assumes I: "inv_core s" and W: "inv_wads s" and S: "inv_slots P s"
  shows "inv_slots P (step P s e)"
proof (cases e)
  case (ProcessItem item)
  show ?thesis
    using ProcessItem inv_slots_process_item[OF S] by simp
next
  case (Submit q)
  then show ?thesis using S by (simp add: inv_slots_process_request)
next
  case (PreFetched n r)
  show ?thesis
  proof (cases "n < length (chains s) \<and> c_stage (chains s ! n) = AwaitHook")
    case False
    then show ?thesis using S PreFetched by auto
  next
    case True
    then have n: "n < length (chains s)" and st: "c_stage (chains s ! n) = AwaitHook" by auto
    have "inv_slots P (prefetched P n r s)"
    proof (cases "r = PyNone")
      case True
      show ?thesis
        unfolding True prefetched_None
      proof (rule inv_slots_chains_upd[OF S])
        fix m assume "m < length (chains s)"
        then show "c_fp (chains (s\<lparr>download_calls := download_calls s @
              [(c_fp (chains s ! n), download_request P (c_request (chains s ! n)))],
            chains := (chains s)[n := (chains s ! n)\<lparr>c_hook := Some PyNone,
              c_request := download_request P (c_request (chains s ! n)),
              c_stage := AwaitDownload\<rparr>]\<rparr>) ! m) = c_fp (chains s ! m) \<and>
          pending (chains (s\<lparr>download_calls := download_calls s @
              [(c_fp (chains s ! n), download_request P (c_request (chains s ! n)))],
            chains := (chains s)[n := (chains s ! n)\<lparr>c_hook := Some PyNone,
              c_request := download_request P (c_request (chains s ! n)),
              c_stage := AwaitDownload\<rparr>]\<rparr>) ! m) = pending (chains s ! m) \<and>
          c_wad (chains (s\<lparr>download_calls := download_calls s @
              [(c_fp (chains s ! n), download_request P (c_request (chains s ! n)))],
            chains := (chains s)[n := (chains s ! n)\<lparr>c_hook := Some PyNone,
              c_request := download_request P (c_request (chains s ! n)),
              c_stage := AwaitDownload\<rparr>]\<rparr>) ! m) = c_wad (chains s ! m)"
          using nth_upd_fields[of m "chains s" "(chains s ! n)\<lparr>c_hook := Some PyNone,
              c_request := download_request P (c_request (chains s ! n)),
              c_stage := AwaitDownload\<rparr>" n] st
          by (simp add: pending_def)
      qed simp_all
    next
      case False
      have "inv_slots P (chain_finish P n r (hooked n r s))"
        by (rule inv_slots_chain_finish)
           (use I W S n st in \<open>simp_all add: inv_core_hooked inv_slots_hooked pending_def
              inv_wads_frame[of "hooked n r s" s]\<close>)
      then show ?thesis by (simp add: prefetched_short[OF False])
    qed
    then show ?thesis using PreFetched True by simp
  qed
next
  case (Downloaded n r)
  show ?thesis
  proof (cases "n < length (chains s) \<and> c_stage (chains s ! n) = AwaitDownload")
    case False
    then show ?thesis using S Downloaded by auto
  next
    case True
    then have "inv_slots P (chain_finish P n x s)" for x
      using I W S by (intro inv_slots_chain_finish) (simp_all add: pending_def)
    then show ?thesis using Downloaded True by (simp add: download_done_def Let_def)
  qed
qed

lemma inv_join_run:
  "inv_wads (run P evs (new_session sp)) \<and> inv_slots P (run P evs (new_session sp))"
proof (induction evs rule: rev_induct)
  case Nil
  then show ?case
    by (simp add: run_Nil inv_wads_def inv_slots_def new_session_def SpiderInfo_init_def)
next
  case (snoc e evs)
  have "inv_core (run P evs (new_session sp))" by (simp add: inv_core_run inv_core_new)
  then show ?case using snoc by (simp add: run_snoc inv_wads_step inv_slots_step)
qed

lemma slot_ok_filled:
  assumes I: "inv_core s" and ok: "slot_ok P s q sl"
  shows "is_filled sl \<longleftrightarrow> request_fingerprint P q \<in> dom (downloaded (info s))"
proof (cases sl)
  case (Filled b r)
  then show ?thesis using ok unfolding slot_ok_def by auto
next
  case (Pending src)
  then have "\<exists>ws. waiting (info s) (request_fingerprint P q) = Some ws"
    using ok unfolding slot_ok_def by (cases src) auto
  then have "request_fingerprint P q \<in> downloading (info s)"
    using I unfolding inv_core_def by auto
  then have "request_fingerprint P q \<notin> dom (downloaded (info s))"
    using I unfolding inv_core_def by auto
  then show ?thesis using Pending by simp
qed

lemma slot_ok_entry:
  assumes "slot_ok P s q sl" "is_filled sl"
  shows "slot_entry sl = entry_of P s q"
  using assms unfolding slot_ok_def entry_of_def by (cases sl) (auto simp add: Let_def)

lemma slots_all_filled:
  assumes I: "inv_core s" and l: "list_all2 (slot_ok P s) qs sls"
  shows "list_all is_filled sls \<longleftrightarrow>
         (\<forall>q \<in> set qs. request_fingerprint P q \<in> dom (downloaded (info s)))"
  using l
proof (induction rule: list_all2_induct)
  case Nil
  then show ?case by simp
next
  case (Cons q qs sl sls)
  then show ?case using slot_ok_filled[OF I Cons.hyps(1)] by simp
qed

lemma slots_entries:
  assumes l: "list_all2 (slot_ok P s) qs sls" and f: "list_all is_filled sls"
  shows "map slot_entry sls = map (entry_of P s) qs"
  using l f
proof (induction rule: list_all2_induct)
  case Nil
  then show ?case by simp
next
  case (Cons q qs sl sls)
  then show ?case using slot_ok_entry[of P s q sl] by simp
qed

lemma process_item_empty:
  assumes "extracted P item" "submitted P item = []"
  shows "completed (step P s (ProcessItem item)) = completed s @ [(length (dlists s), [])]"
  using assms by (simp add: process_item_snd DeferredList_def Let_def)

lemma process_item_dlists:
  assumes "extracted P item"
  shows "length (dlists (step P s (ProcessItem item))) = Suc (length (dlists s))"
    and "dl_item (dlists (step P s (ProcessItem item)) ! length (dlists s)) = item"
    and "length (dl_slots (dlists (step P s (ProcessItem item)) ! length (dlists s))) =
         length (submitted P item)"
  using assms by (simp_all add: process_item_snd DeferredList_dlists submit_list_length)

lemma process_item_raised:
  assumes "\<not> extracted P item"
  shows "dlists (step P s (ProcessItem item)) = dlists s"
    and "completed (step P s (ProcessItem item)) = completed s"
    and "fst (process_item P item s) \<noteq> None"
  using assms by (simp_all add: process_item_snd process_item_fst)

subsection \<open>Sessions of a pipeline\<close>

lemma own_events_append: "own_events j (xs @ ys) = own_events j xs @ own_events j ys"
  by (induction j xs rule: own_events.induct) simp_all

lemma pipeline_run_snoc: "pipeline_run P (evs @ [e]) w = pipeline_step P (pipeline_run P evs w) e"
  by (simp add: pipeline_run_def)

lemma pipeline_run_current:
  assumes "spiderinfo w = Some j" "j < length (sessions w)" "\<not> list_ex is_open evs"
  shows "spiderinfo (pipeline_run P evs w) = Some j \<and>
         length (sessions (pipeline_run P evs w)) = length (sessions w) \<and>
         sessions (pipeline_run P evs w) ! j = run P (own_events j evs) (sessions w ! j)"
  using assms(3)
proof (induction evs rule: rev_induct)
  case Nil
  then show ?case using assms by (simp add: pipeline_run_def run_Nil)
next
  case (snoc e evs)
  then have IH: "spiderinfo (pipeline_run P evs w) = Some j"
      "length (sessions (pipeline_run P evs w)) = length (sessions w)"
      "sessions (pipeline_run P evs w) ! j = run P (own_events j evs) (sessions w ! j)"
    by simp_all
  from snoc.prems have ne: "\<not> is_open e" by simp
  show ?case
  proof (cases e)
    case (OpenSpider sp)
    then show ?thesis using ne by simp
  next
    case (Item item)
    then show ?thesis using IH assms(2)
      by (simp add: pipeline_run_snoc own_events_append run_append run_def)
  next
    case (Fires j' e')
    then show ?thesis using IH assms(2)
      by (simp add: pipeline_run_snoc own_events_append run_append run_def)
  qed
qed


subsection \<open>Caching and fan-out raise nothing\<close>

lemma chain_finish_errors:
  "errors_logged (chain_finish P n r s) =
     errors_logged s + (if fst (cache_result_and_execute_waiters P r (c_fp (chains s ! n)) s) then 1 else 0)"
  by (simp add: chain_finish_def Let_def case_prod_beta split: option.splits)

lemma chain_finish_no_error:
  assumes I: "inv_core s" and n: "n < length (chains s)" and p: "pending (chains s ! n)"
  shows "errors_logged (chain_finish P n r s) = errors_logged s"
proof -
  have "c_fp (chains s ! n) \<in> downloading (info s)" using I n p unfolding inv_core_def by metis
  moreover from this have "waiting (info s) (c_fp (chains s ! n)) \<noteq> None"
    using I unfolding inv_core_def by auto
  ultimately show ?thesis by (simp add: chain_finish_errors cache_fst)
qed

lemma step_no_error:
  assumes I: "inv_core s"
  shows "errors_logged (step P s e) = errors_logged s"
proof (cases e)
  case (ProcessItem item)
  then show ?thesis by (simp del: step.simps)
next
  case (Submit q)
  then show ?thesis by simp
next
  case (PreFetched n r)
  show ?thesis
  proof (cases "n < length (chains s) \<and> c_stage (chains s ! n) = AwaitHook")
    case False
    then show ?thesis using PreFetched by auto
  next
    case True
    have "errors_logged (prefetched P n r s) = errors_logged s"
    proof (cases "r = PyNone")
      case True
      then show ?thesis by (simp add: prefetched_None)
    next
      case False
      have "errors_logged (chain_finish P n r (hooked n r s)) = errors_logged (hooked n r s)"
        by (rule chain_finish_no_error) (use I True in \<open>simp_all add: inv_core_hooked pending_def\<close>)
      then show ?thesis by (simp add: prefetched_short[OF False])
    qed
    then show ?thesis using PreFetched True by simp
  qed
next
  case (Downloaded n r)
  show ?thesis
  proof (cases "n < length (chains s) \<and> c_stage (chains s ! n) = AwaitDownload")
    case False
    then show ?thesis using Downloaded by auto
  next
    case True
    then have "errors_logged (chain_finish P n x s) = errors_logged s" for x
      using I by (intro chain_finish_no_error) (simp_all add: pending_def)
    then show ?thesis using Downloaded True by (simp add: download_done_def Let_def)
  qed
qed

lemma run_no_error: "errors_logged (run P evs (new_session sp)) = 0"
proof (induction evs rule: rev_induct)
  case Nil
  then show ?case by (simp add: run_Nil new_session_def)
next
  case (snoc e evs)
  have "inv_core (run P evs (new_session sp))" by (simp add: inv_core_run inv_core_new)
  then show ?case using snoc by (simp add: run_snoc step_no_error)
qed

lemma entry_of_tag: "fst (entry_of P s q) = (\<not> is_failure (snd (entry_of P s q)))"
  by (simp add: entry_of_def Let_def)

lemma join_resolved:
  assumes d: "d < length (dlists (run P evs (new_session sp)))"
  shows "extracted P (dl_item (dlists (run P evs (new_session sp)) ! d))"
    and "(\<forall>q \<in> set (submitted P (dl_item (dlists (run P evs (new_session sp)) ! d))).
          request_fingerprint P q \<in> dom (downloaded (info (run P evs (new_session sp))))) \<Longrightarrow>
      (d, map (entry_of P (run P evs (new_session sp)))
            (submitted P (dl_item (dlists (run P evs (new_session sp)) ! d))))
         \<in> set (completed (run P evs (new_session sp)))"
proof -
  let ?S = "run P evs (new_session sp)"
  let ?qs = "submitted P (dl_item (dlists ?S ! d))"
  have I: "inv_core ?S" by (simp add: inv_core_run inv_core_new)
  have B: "inv_barrier ?S" by (rule inv_barrier_run)
  have S: "inv_slots P ?S" using inv_join_run[of P evs sp] by simp
  from S d have b: "extracted P (dl_item (dlists ?S ! d))"
    "list_all2 (slot_ok P ?S) ?qs (dl_slots (dlists ?S ! d))"
    unfolding inv_slots_def by blast+
  show "extracted P (dl_item (dlists ?S ! d))" by (rule b(1))
  show "(d, map (entry_of P ?S) ?qs) \<in> set (completed ?S)"
    if "\<forall>q \<in> set ?qs. request_fingerprint P q \<in> dom (downloaded (info ?S))"
  proof -
    have f: "list_all is_filled (dl_slots (dlists ?S ! d))"
      using that slots_all_filled[OF I b(2)] by simp
    then have "d \<in> fst ` set (completed ?S)" using B d unfolding inv_barrier_def by blast
    then obtain x where x: "x \<in> set (completed ?S)" "fst x = d" by auto
    then have "snd x = map slot_entry (dl_slots (dlists ?S ! d))"
      using B unfolding inv_barrier_def by blast
    then have "snd x = map (entry_of P ?S) ?qs"
      using slots_entries[OF b(2) f] by simp
    then show ?thesis using x by (cases x) simp
  qed
qed

subsection \<open>The barrier of a processed item\<close>

lemma cache_items:
  "length (dlists (snd (cache_result_and_execute_waiters P r fp s))) = length (dlists s)"
  "d < length (dlists s) \<Longrightarrow>
     dl_item (dlists (snd (cache_result_and_execute_waiters P r fp s)) ! d) = dl_item (dlists s ! d)"
  by (simp_all add: cache_result_and_execute_waiters_def Let_def fire_wads_dlists
      split: option.splits)

lemma chain_finish_items:
  "length (dlists (chain_finish P n r s)) = length (dlists s)"
  "d < length (dlists s) \<Longrightarrow> dl_item (dlists (chain_finish P n r s) ! d) = dl_item (dlists s ! d)"
proof -
  let ?c = "cache_result_and_execute_waiters P r (c_fp (chains s ! n)) s"
  let ?s2 = "if fst ?c then (snd ?c)\<lparr>errors_logged := errors_logged (snd ?c) + 1\<rparr> else snd ?c"
  have cf: "dlists (chain_finish P n r s) =
      (case wad_result (snd ?c) (c_wad (chains s ! n)) of
         None \<Rightarrow> dlists (snd ?c)
       | Some x \<Rightarrow> dlists (notify P (OnDfd n) x ?s2))"
    by (simp add: chain_finish_def Let_def case_prod_beta split: option.splits)
  show "length (dlists (chain_finish P n r s)) = length (dlists s)"
    unfolding cf by (simp add: notify_slots cache_items split: option.splits)
  show "dl_item (dlists (chain_finish P n r s) ! d) = dl_item (dlists s ! d)"
    if "d < length (dlists s)"
    unfolding cf using that by (simp add: notify_slots cache_items split: option.splits)
qed

lemma step_items:
  "length (dlists s) \<le> length (dlists (step P s e))"
  "d < length (dlists s) \<Longrightarrow> dl_item (dlists (step P s e) ! d) = dl_item (dlists s ! d)"
proof -
  have "length (dlists s) \<le> length (dlists (step P s e)) \<and>
      (d < length (dlists s) \<longrightarrow> dl_item (dlists (step P s e) ! d) = dl_item (dlists s ! d))"
  proof (cases e)
    case (ProcessItem item)
    then show ?thesis by (simp add: process_item_snd DeferredList_dlists)
  next
    case (Submit q)
    then show ?thesis by simp
  next
    case (PreFetched n r)
    have "length (dlists (prefetched P n r s)) = length (dlists s) \<and>
        (d < length (dlists s) \<longrightarrow>
           dl_item (dlists (prefetched P n r s) ! d) = dl_item (dlists s ! d))"
      by (cases "r = PyNone") (simp_all add: prefetched_None prefetched_short chain_finish_items)
    then show ?thesis using PreFetched by simp
  next
    case (Downloaded n r)
    then show ?thesis by (simp add: download_done_def Let_def chain_finish_items)
  qed
  then show "length (dlists s) \<le> length (dlists (step P s e))"
    and "d < length (dlists s) \<Longrightarrow> dl_item (dlists (step P s e) ! d) = dl_item (dlists s ! d)"
    by simp_all
qed

lemma run_items:
  "d < length (dlists s) \<Longrightarrow>
   d < length (dlists (run P evs s)) \<and> dl_item (dlists (run P evs s) ! d) = dl_item (dlists s ! d)"
proof (induction evs rule: rev_induct)
  case Nil
  then show ?case by (simp add: run_Nil)
next
  case (snoc e evs)
  then have d: "d < length (dlists (run P evs s))"
    and i: "dl_item (dlists (run P evs s) ! d) = dl_item (dlists s ! d)" by simp_all
  show ?case
    using step_items(1)[of "run P evs s" P e] step_items(2)[OF d, of P e] d i
    by (simp add: run_snoc)
qed

lemma run_item:
  "run P (evs @ ProcessItem item # evs') s = run P evs' (step P (run P evs s) (ProcessItem item))"
  by (simp add: run_def)

lemma item_barrier:
  assumes "extracted P item"
  shows "length (dlists (run P evs s)) < length (dlists (run P (evs @ ProcessItem item # evs') s))"
    and "dl_item (dlists (run P (evs @ ProcessItem item # evs') s) ! length (dlists (run P evs s))) = item"
proof -
  let ?s = "run P evs s"
  let ?t = "step P ?s (ProcessItem item)"
  have "length (dlists ?s) < length (dlists ?t)" "dl_item (dlists ?t ! length (dlists ?s)) = item"
    using process_item_dlists[OF assms, of ?s] by simp_all
  with run_items[of "length (dlists ?s)" ?t P evs']
  show "length (dlists (run P evs s)) < length (dlists (run P (evs @ ProcessItem item # evs') s))"
    and "dl_item (dlists (run P (evs @ ProcessItem item # evs') s) ! length (dlists (run P evs s))) = item"
    by (simp_all add: run_item)
qed

lemma barrier_slots:
  assumes d: "d < length (dlists (run P evs (new_session sp)))"
  shows "list_all2 (slot_ok P (run P evs (new_session sp)))
     (submitted P (dl_item (dlists (run P evs (new_session sp)) ! d)))
     (dl_slots (dlists (run P evs (new_session sp)) ! d))"
  using inv_join_run[of P evs sp] d unfolding inv_slots_def by blast

lemma barrier_count:
  assumes d: "d < length (dlists (run P evs (new_session sp)))"
  shows "count_list (map fst (completed (run P evs (new_session sp)))) d =
     (if \<forall>q \<in> set (submitted P (dl_item (dlists (run P evs (new_session sp)) ! d))).
           request_fingerprint P q \<in> dom (downloaded (info (run P evs (new_session sp))))
      then 1 else 0)"
proof -
  let ?S = "run P evs (new_session sp)"
  let ?qs = "submitted P (dl_item (dlists ?S ! d))"
  have I: "inv_core ?S" by (simp add: inv_core_run inv_core_new)
  have B: "inv_barrier ?S" by (rule inv_barrier_run)
  note b = barrier_slots[OF d]
  have filled: "list_all is_filled (dl_slots (dlists ?S ! d)) \<longleftrightarrow>
      (\<forall>q \<in> set ?qs. request_fingerprint P q \<in> dom (downloaded (info ?S)))"
    by (rule slots_all_filled[OF I b])
  have logged: "d \<in> set (map fst (completed ?S)) \<longleftrightarrow> list_all is_filled (dl_slots (dlists ?S ! d))"
  proof
    assume "d \<in> set (map fst (completed ?S))"
    then obtain x where "x \<in> set (completed ?S)" "fst x = d" by auto
    then show "list_all is_filled (dl_slots (dlists ?S ! d))"
      using B unfolding inv_barrier_def by blast
  next
    assume "list_all is_filled (dl_slots (dlists ?S ! d))"
    then have "d \<in> fst ` set (completed ?S)" using B d unfolding inv_barrier_def by blast
    then show "d \<in> set (map fst (completed ?S))" by simp
  qed
  have "distinct (map fst (completed ?S))" using B unfolding inv_barrier_def by blast
  then show ?thesis using logged filled by (simp add: count_list_distinct)
qed

lemma barrier_entries:
  assumes "(d, res) \<in> set (completed (run P evs (new_session sp)))"
  shows "d < length (dlists (run P evs (new_session sp)))"
    and "extracted P (dl_item (dlists (run P evs (new_session sp)) ! d))"
    and "res = map (entry_of P (run P evs (new_session sp)))
           (submitted P (dl_item (dlists (run P evs (new_session sp)) ! d)))"
proof -
  let ?S = "run P evs (new_session sp)"
  have B: "inv_barrier ?S" by (rule inv_barrier_run)
  from assms B have f: "d < length (dlists ?S)" "list_all is_filled (dl_slots (dlists ?S ! d))"
    "res = map slot_entry (dl_slots (dlists ?S ! d))"
    unfolding inv_barrier_def by force+
  show "d < length (dlists ?S)" by (rule f(1))
  show "extracted P (dl_item (dlists ?S ! d))" by (rule join_resolved(1)[OF f(1)])
  show "res = map (entry_of P ?S) (submitted P (dl_item (dlists ?S ! d)))"
    using slots_entries[OF barrier_slots[OF f(1)] f(2)] f(3) by simp
qed

lemma submit_list_submits:
  "submits (snd (submit_list P rs s)) = submits s @ map (request_fingerprint P) rs"
  by (induction rs arbitrary: s) (simp_all add: case_prod_beta Let_def)

lemma process_item_submits:
  "submits (step P s (ProcessItem item)) =
     submits s @ map (request_fingerprint P) (submitted P item)"
  by (simp add: process_item_snd submit_list_submits DeferredList_def Let_def)

subsection \<open>Evaluating the examples\<close>

lemmas demo_eval = run_def new_session_def SpiderInfo_init_def process_item_def
  submitted_def extracted_def
  process_request_def Let_def DeferredList_def prefetched_def check_media_to_download_def
  download_done_def chain_finish_def cache_result_and_execute_waiters_def sanitize_def
  cleanFailure_def fire_wad_def notify_def cbDeferred_def fill_def addCallbacks_def
  demo_pipeline_def demo_request_def demo_failure_def demo_inflight_def demo_unseen_def
  demo_failed_def demo_clean_def demo_caller_def pipeline_run_def open_spider_def
  pipeline_init_def demo_first_def demo_raising_def demo_join_def demo_twice_def
  demo_lazy_def

lemma demo_fp [simp]: "request_fingerprint demo_pipeline (demo_request u) = u"
  by (simp add: demo_pipeline_def demo_request_def)

section \<open>The claims\<close>

text \<open>
  C1 (single-flight). In every state a session reaches, whatever the events were:
  \<open>media_to_download\<close>, the entry of the fetch, has been called exactly once for every
  fingerprint that was submitted, however often it was submitted; the download has been
  called at most once for a fingerprint, and exactly once when the chain of that fingerprint
  got \<open>None\<close> from \<open>media_to_download\<close>; and every waiter that was fired for a
  fingerprint was given the outcome that is cached for it, so all of them got the same.
\<close>

theorem single_flight:
  "(\<forall>k \<in> set (submits (run P evs (new_session sp))).
      count_list (map fst (mtd_calls (run P evs (new_session sp)))) k = 1) \<and>
   (\<forall>k. count_list (map fst (download_calls (run P evs (new_session sp)))) k =
      (if \<exists>c \<in> set (chains (run P evs (new_session sp))). c_fp c = k \<and> c_hook c = Some PyNone
       then 1 else 0)) \<and>
   (\<forall>x \<in> set (fired (run P evs (new_session sp))).
      downloaded (info (run P evs (new_session sp))) (fst x) = Some (fst (snd (snd x))))"
proof -
  let ?s = "run P evs (new_session sp)"
  have I: "inv_core ?s" by (simp add: inv_core_run inv_core_new)
  have D: "inv_dl ?s" by (rule inv_dl_run)
  have F: "inv_fired ?s" by (rule inv_fired_run)
  have 1: "\<forall>k \<in> set (submits ?s). count_list (map fst (mtd_calls ?s)) k = 1"
    using I unfolding inv_core_def by (simp add: count_list_distinct)
  have 2: "count_list (map fst (download_calls ?s)) k =
      (if \<exists>c \<in> set (chains ?s). c_fp c = k \<and> c_hook c = Some PyNone then 1 else 0)" for k
  proof -
    have "(\<exists>c \<in> set (chains ?s). c_fp c = k \<and> c_hook c = Some PyNone) \<longleftrightarrow>
        (\<exists>m < length (chains ?s). c_fp (chains ?s ! m) = k \<and> c_hook (chains ?s ! m) = Some PyNone)"
      by (metis in_set_conv_nth)
    then show ?thesis
      using D unfolding inv_dl_def by (simp add: count_list_distinct)
  qed
  have 3: "\<forall>x \<in> set (fired ?s). downloaded (info ?s) (fst x) = Some (fst (snd (snd x)))"
    using F unfolding inv_fired_def by auto
  show ?thesis using 1 2 3 by blast
qed

lemma demo_single_flight:
  "submits (run demo_pipeline [Submit (demo_request ''A''), Submit (demo_request ''A''),
      Submit (demo_request ''A''), PreFetched 0 PyNone, Downloaded 0 (Obj 7)]
      (new_session ''sp'')) = [''A'', ''A'', ''A'']"
  "map fst (mtd_calls (run demo_pipeline [Submit (demo_request ''A''), Submit (demo_request ''A''),
      Submit (demo_request ''A''), PreFetched 0 PyNone, Downloaded 0 (Obj 7)]
      (new_session ''sp''))) = [''A'']"
  "map fst (download_calls (run demo_pipeline [Submit (demo_request ''A''), Submit (demo_request ''A''),
      Submit (demo_request ''A''), PreFetched 0 PyNone, Downloaded 0 (Obj 7)]
      (new_session ''sp''))) = [''A'']"
  "fired (run demo_pipeline [Submit (demo_request ''A''), Submit (demo_request ''A''),
      Submit (demo_request ''A''), PreFetched 0 PyNone, Downloaded 0 (Obj 7)]
      (new_session ''sp'')) =
     [(''A'', 0, Obj 7, Obj 7), (''A'', 1, Obj 7, Obj 7), (''A'', 2, Obj 7, Obj 7)]"
  "downloaded (info (run demo_pipeline [Submit (demo_request ''A''), Submit (demo_request ''A''),
      Submit (demo_request ''A''), PreFetched 0 PyNone, Downloaded 0 (Obj 7)]
      (new_session ''sp''))) ''A'' = Some (Obj 7)"
  by (simp_all add: demo_eval)

theorem single_flight_witness:
  "''A'' \<in> set (submits (run demo_pipeline [Submit (demo_request ''A''),
      Submit (demo_request ''A''), Submit (demo_request ''A''), PreFetched 0 PyNone,
      Downloaded 0 (Obj 7)] (new_session ''sp''))) \<and>
   count_list (map fst (mtd_calls (run demo_pipeline [Submit (demo_request ''A''),
      Submit (demo_request ''A''), Submit (demo_request ''A''), PreFetched 0 PyNone,
      Downloaded 0 (Obj 7)] (new_session ''sp'')))) ''A'' = 1 \<and>
   count_list (map fst (download_calls (run demo_pipeline [Submit (demo_request ''A''),
      Submit (demo_request ''A''), Submit (demo_request ''A''), PreFetched 0 PyNone,
      Downloaded 0 (Obj 7)] (new_session ''sp'')))) ''A'' = 1 \<and>
   (''A'', 2, Obj 7, Obj 7) \<in> set (fired (run demo_pipeline [Submit (demo_request ''A''),
      Submit (demo_request ''A''), Submit (demo_request ''A''), PreFetched 0 PyNone,
      Downloaded 0 (Obj 7)] (new_session ''sp''))) \<and>
   downloaded (info (run demo_pipeline [Submit (demo_request ''A''),
      Submit (demo_request ''A''), Submit (demo_request ''A''), PreFetched 0 PyNone,
      Downloaded 0 (Obj 7)] (new_session ''sp''))) ''A'' = Some (Obj 7)"
  using single_flight[of demo_pipeline "[Submit (demo_request ''A''),
      Submit (demo_request ''A''), Submit (demo_request ''A''), PreFetched 0 PyNone,
      Downloaded 0 (Obj 7)]" "''sp''"]
  by (simp add: demo_single_flight)

text \<open>
  C5 (state invariant). In every state a session reaches, no fingerprint is both in
  \<open>downloading\<close> and in \<open>downloaded\<close>, every fingerprint with an entry in \<open>waiting\<close> is
  in \<open>downloading\<close>, and a fingerprint that has a cached result has no entry in
  \<open>waiting\<close> any more.
\<close>

theorem state_invariant:
  "downloading (info (run P evs (new_session sp))) \<inter>
     dom (downloaded (info (run P evs (new_session sp)))) = {} \<and>
   dom (waiting (info (run P evs (new_session sp)))) \<subseteq>
     downloading (info (run P evs (new_session sp))) \<and>
   (\<forall>k r. downloaded (info (run P evs (new_session sp))) k = Some r \<longrightarrow>
      waiting (info (run P evs (new_session sp))) k = None)"
proof -
  have "inv_core (run P evs (new_session sp))"
    by (simp add: inv_core_run inv_core_new)
  then show ?thesis unfolding inv_core_def by auto
qed

lemma demo_state_invariant:
  "info (run demo_pipeline [Submit (demo_request ''A''), Submit (demo_request ''A''),
      PreFetched 0 (Obj 5)] (new_session ''sp'')) =
   \<lparr>spider = ''sp'', downloading = {}, downloaded = [''A'' \<mapsto> Obj 5], waiting = Map.empty\<rparr>"
  by (simp add: demo_eval)

theorem state_invariant_witness:
  "downloading (info (run demo_pipeline [Submit (demo_request ''A''),
      Submit (demo_request ''A''), PreFetched 0 (Obj 5)] (new_session ''sp''))) \<inter>
     dom (downloaded (info (run demo_pipeline [Submit (demo_request ''A''),
      Submit (demo_request ''A''), PreFetched 0 (Obj 5)] (new_session ''sp'')))) = {} \<and>
   downloaded (info (run demo_pipeline [Submit (demo_request ''A''),
      Submit (demo_request ''A''), PreFetched 0 (Obj 5)] (new_session ''sp''))) ''A'' =
     Some (Obj 5) \<and>
   waiting (info (run demo_pipeline [Submit (demo_request ''A''),
      Submit (demo_request ''A''), PreFetched 0 (Obj 5)] (new_session ''sp''))) ''A'' = None"
  using state_invariant[of demo_pipeline "[Submit (demo_request ''A''),
      Submit (demo_request ''A''), PreFetched 0 (Obj 5)]" "''sp''"]
  by (simp add: demo_state_invariant)

text \<open>
  C2 (cache correctness, failures included). Once a fingerprint has a cached result in a
  reachable state, then after any further events the cache still holds that result for
  it, \<open>media_to_download\<close> and the download have been called for it no more often than
  before, and \<open>_process_request\<close> for a request with that fingerprint returns at once a
  Deferred fired with the cached result passed through the caller's callbacks, changing
  nothing in the session but the trace of submissions; a cached failure comes back as that
  failure when the caller gave no errback.
\<close>

theorem cache_correctness:
  assumes "downloaded (info (run P evs (new_session sp))) (request_fingerprint P q) = Some r"
  shows
   "downloaded (info (run P (evs @ evs') (new_session sp))) (request_fingerprint P q) = Some r \<and>
    count_list (map fst (mtd_calls (run P (evs @ evs') (new_session sp)))) (request_fingerprint P q) =
      count_list (map fst (mtd_calls (run P evs (new_session sp)))) (request_fingerprint P q) \<and>
    count_list (map fst (download_calls (run P (evs @ evs') (new_session sp)))) (request_fingerprint P q) =
      count_list (map fst (download_calls (run P evs (new_session sp)))) (request_fingerprint P q) \<and>
    process_request P q (run P (evs @ evs') (new_session sp)) =
      (q\<lparr>callback := None, errback := None\<rparr>,
       Fired (addCallbacks (case callback q of Some c \<Rightarrow> c | None \<Rightarrow> (\<lambda>x. x)) (errback q) r),
       (run P (evs @ evs') (new_session sp))
         \<lparr>submits := submits (run P (evs @ evs') (new_session sp)) @ [request_fingerprint P q]\<rparr>) \<and>
    (is_failure r \<and> errback q = None \<longrightarrow>
       fst (snd (process_request P q (run P (evs @ evs') (new_session sp)))) = Fired r)"
proof -
  let ?s = "run P evs (new_session sp)" and ?k = "request_fingerprint P q"
  have I: "inv_core ?s" by (simp add: inv_core_run inv_core_new)
  have S: "settled ?k r ?s (run P (evs @ evs') (new_session sp))"
    unfolding run_append using I assms by (rule settled_run)
  then have d: "downloaded (info (run P (evs @ evs') (new_session sp))) ?k = Some r"
    by (simp add: settled_def)
  have "is_failure r \<Longrightarrow> errback q = None \<Longrightarrow>
      addCallbacks (case callback q of Some c \<Rightarrow> c | None \<Rightarrow> (\<lambda>x. x)) (errback q) r = r"
    by (simp add: addCallbacks_def)
  then show ?thesis
    using S d by (simp add: settled_def process_request_cached[OF d])
qed

lemma demo_cache_correctness:
  "downloaded (info (run demo_pipeline demo_failed (new_session ''sp''))) ''A'' =
     Some (Fail demo_clean)"
  "downloaded (info (run demo_pipeline (demo_failed @ [Submit (demo_request ''A''), ProcessItem 2])
     (new_session ''sp''))) ''A'' = Some (Fail demo_clean)"
  "map fst (mtd_calls (run demo_pipeline (demo_failed @ [Submit (demo_request ''A''), ProcessItem 2])
     (new_session ''sp''))) = [''A'', ''B'']"
  "map fst (download_calls (run demo_pipeline (demo_failed @ [Submit (demo_request ''A''), ProcessItem 2])
     (new_session ''sp''))) = [''A'']"
  by (simp_all add: demo_eval)

theorem cache_correctness_witness:
  "downloaded (info (run demo_pipeline demo_failed (new_session ''sp'')))
     (request_fingerprint demo_pipeline (demo_request ''A'')) = Some (Fail demo_clean) \<and>
   is_failure (Fail demo_clean :: nat pyobj) \<and> errback (demo_request ''A'') = None \<and>
   count_list (map fst (mtd_calls (run demo_pipeline
     (demo_failed @ [Submit (demo_request ''A''), ProcessItem 2]) (new_session ''sp'')))) ''A'' = 1 \<and>
   count_list (map fst (download_calls (run demo_pipeline
     (demo_failed @ [Submit (demo_request ''A''), ProcessItem 2]) (new_session ''sp'')))) ''A'' = 1 \<and>
   fst (snd (process_request demo_pipeline (demo_request ''A'') (run demo_pipeline
     (demo_failed @ [Submit (demo_request ''A''), ProcessItem 2]) (new_session ''sp'')))) =
     Fired (Fail demo_clean)"
proof -
  have h: "downloaded (info (run demo_pipeline demo_failed (new_session ''sp'')))
     (request_fingerprint demo_pipeline (demo_request ''A'')) = Some (Fail demo_clean)"
    by (simp add: demo_eval)
  have e: "errback (demo_request ''A'') = None" by (simp add: demo_request_def)
  show ?thesis
    using cache_correctness[OF h, of "[Submit (demo_request ''A''), ProcessItem 2]"] h e
    by (simp add: demo_cache_correctness addCallbacks_def)
qed

text \<open>
  C7 (failure sanitization). Every failure found in the cache of a reachable state has
  empty \<open>frames\<close> and no \<open>stack\<close>. When \<open>_cache_result_and_execute_waiters\<close> is given a
  failure for a fingerprint that is in flight and has a waiter list, it raises nothing,
  caches the failure with traceback, frames and stack removed, takes the fingerprint out of
  \<open>downloading\<close>, deletes its waiter list and fires every waiter of that list, in order,
  with the stripped failure.
\<close>

theorem failure_sanitization:
  "(\<forall>k f. downloaded (info (run P evs (new_session sp))) k = Some (Fail f) \<longrightarrow>
      frames f = [] \<and> stack f = None) \<and>
   (fp \<in> downloading (info s) \<and> waiting (info s) fp = Some ws \<longrightarrow>
      fst (cache_result_and_execute_waiters P (Fail f) fp s) = False \<and>
      downloaded (info (snd (cache_result_and_execute_waiters P (Fail f) fp s))) fp =
        Some (Fail ((cleanFailure f)\<lparr>frames := [], stack := None\<rparr>)) \<and>
      fp \<notin> downloading (info (snd (cache_result_and_execute_waiters P (Fail f) fp s))) \<and>
      waiting (info (snd (cache_result_and_execute_waiters P (Fail f) fp s))) fp = None \<and>
      fired (snd (cache_result_and_execute_waiters P (Fail f) fp s)) =
        fired s @ map (\<lambda>w. (fp, wad_id w, Fail ((cleanFailure f)\<lparr>frames := [], stack := None\<rparr>),
            addCallbacks (wad_cb w) (wad_eb w) (Fail ((cleanFailure f)\<lparr>frames := [], stack := None\<rparr>)))) ws)"
proof -
  have "inv_clean (run P evs (new_session sp))" by (rule inv_clean_run)
  then have 1: "\<forall>k f. downloaded (info (run P evs (new_session sp))) k = Some (Fail f) \<longrightarrow>
      frames f = [] \<and> stack f = None"
    unfolding inv_clean_def by blast
  have "sanitize (Fail f :: 'b pyobj) = Fail ((cleanFailure f)\<lparr>frames := [], stack := None\<rparr>)"
    by (simp add: sanitize_def)
  then show ?thesis
    using 1 by (simp add: cache_fst cache_info cache_fired fanout_def)
qed

lemma demo_failure_sanitization:
  "downloading (info (run demo_pipeline demo_inflight (new_session ''sp''))) = {''A''}"
  "waiting (info (run demo_pipeline demo_inflight (new_session ''sp''))) ''A'' =
     Some [\<lparr>wad_id = 0, wad_cb = (\<lambda>x. x), wad_eb = None\<rparr>,
           \<lparr>wad_id = 1, wad_cb = (\<lambda>x. x), wad_eb = None\<rparr>,
           \<lparr>wad_id = 2, wad_cb = (\<lambda>x. x), wad_eb = None\<rparr>]"
  "fired (run demo_pipeline demo_inflight (new_session ''sp'')) = []"
  "(cleanFailure demo_failure)\<lparr>frames := [], stack := None\<rparr> = demo_clean"
  by (simp_all add: demo_eval)

theorem failure_sanitization_witness:
  "''A'' \<in> downloading (info (run demo_pipeline demo_inflight (new_session ''sp''))) \<and>
   waiting (info (run demo_pipeline demo_inflight (new_session ''sp''))) ''A'' =
     Some [\<lparr>wad_id = 0, wad_cb = (\<lambda>x. x), wad_eb = None\<rparr>,
           \<lparr>wad_id = 1, wad_cb = (\<lambda>x. x), wad_eb = None\<rparr>,
           \<lparr>wad_id = 2, wad_cb = (\<lambda>x. x), wad_eb = None\<rparr>] \<and>
   downloaded (info (snd (cache_result_and_execute_waiters demo_pipeline (Fail demo_failure) ''A''
     (run demo_pipeline demo_inflight (new_session ''sp''))))) ''A'' = Some (Fail demo_clean) \<and>
   map (\<lambda>x. (fst (snd x), fst (snd (snd x))))
     (fired (snd (cache_result_and_execute_waiters demo_pipeline (Fail demo_failure) ''A''
       (run demo_pipeline demo_inflight (new_session ''sp''))))) =
     [(0, Fail demo_clean), (1, Fail demo_clean), (2, Fail demo_clean)] \<and>
   downloaded (info (run demo_pipeline demo_failed (new_session ''sp''))) ''A'' =
     Some (Fail demo_clean) \<and>
   frames demo_clean = [] \<and> stack demo_clean = None"
  using failure_sanitization[of demo_pipeline demo_failed "''sp''" "''A''"
      "run demo_pipeline demo_inflight (new_session ''sp'')"
      "[\<lparr>wad_id = 0, wad_cb = (\<lambda>x. x), wad_eb = None\<rparr>,
        \<lparr>wad_id = 1, wad_cb = (\<lambda>x. x), wad_eb = None\<rparr>,
        \<lparr>wad_id = 2, wad_cb = (\<lambda>x. x), wad_eb = None\<rparr>]" demo_failure]
  by (simp add: demo_failure_sanitization demo_cache_correctness(1)) (simp add: demo_clean_def)

text \<open>
  C8 (pre-fetch short-circuit). Take a reachable state and a chain that waits for the
  result of \<open>media_to_download\<close>. When that result is not \<open>None\<close> (an object, or a failure
  the hook raised), the download is not called: the result is cached for the fingerprint,
  which leaves \<open>downloading\<close>, and every waiter of the fingerprint is fired with it. When
  the result is \<open>None\<close>, the download is called with the request and the chain waits for
  it; nothing is cached and no waiter is fired.
\<close>

theorem prefetch_short_circuit:
  assumes "n < length (chains (run P evs (new_session sp)))"
    and "c_stage (chains (run P evs (new_session sp)) ! n) = AwaitHook"
  shows
   "(r \<noteq> PyNone \<longrightarrow>
      download_calls (step P (run P evs (new_session sp)) (PreFetched n r)) =
        download_calls (run P evs (new_session sp)) \<and>
      downloaded (info (step P (run P evs (new_session sp)) (PreFetched n r)))
        (c_fp (chains (run P evs (new_session sp)) ! n)) = Some (sanitize r) \<and>
      c_fp (chains (run P evs (new_session sp)) ! n) \<notin>
        downloading (info (step P (run P evs (new_session sp)) (PreFetched n r))) \<and>
      (\<exists>ws. waiting (info (run P evs (new_session sp)))
               (c_fp (chains (run P evs (new_session sp)) ! n)) = Some ws \<and>
            fired (step P (run P evs (new_session sp)) (PreFetched n r)) =
              fired (run P evs (new_session sp)) @
              map (\<lambda>w. (c_fp (chains (run P evs (new_session sp)) ! n), wad_id w, sanitize r,
                         addCallbacks (wad_cb w) (wad_eb w) (sanitize r))) ws)) \<and>
    (r = PyNone \<longrightarrow>
      download_calls (step P (run P evs (new_session sp)) (PreFetched n r)) =
        download_calls (run P evs (new_session sp)) @
          [(c_fp (chains (run P evs (new_session sp)) ! n),
            if download_func P then c_request (chains (run P evs (new_session sp)) ! n)
            else modify_media_request P (c_request (chains (run P evs (new_session sp)) ! n)))] \<and>
      info (step P (run P evs (new_session sp)) (PreFetched n r)) = info (run P evs (new_session sp)) \<and>
      fired (step P (run P evs (new_session sp)) (PreFetched n r)) = fired (run P evs (new_session sp)) \<and>
      c_stage (chains (step P (run P evs (new_session sp)) (PreFetched n r)) ! n) = AwaitDownload)"
proof -
  let ?s = "run P evs (new_session sp)"
  have p: "pending (chains ?s ! n)" using assms by (simp add: pending_def)
  note rp = reach_pending[OF assms(1) p]
  from rp(2) obtain ws where ws: "waiting (info ?s) (c_fp (chains ?s ! n)) = Some ws" by blast
  have st: "step P ?s (PreFetched n r) = prefetched P n r ?s" using assms by simp
  show ?thesis
    unfolding st using rp(1) ws assms(1)
    by (simp add: prefetched_download_calls prefetched_info prefetched_fired prefetched_chains
         cache_info cache_fired fanout_def download_request_def)
qed

lemma demo_prefetch:
  "length (chains (run demo_pipeline demo_unseen (new_session ''sp''))) = 1"
  "c_stage (chains (run demo_pipeline demo_unseen (new_session ''sp'')) ! 0) = AwaitHook"
  "c_fp (chains (run demo_pipeline demo_unseen (new_session ''sp'')) ! 0) = ''A''"
  "download_calls (run demo_pipeline demo_unseen (new_session ''sp'')) = []"
  "downloaded (info (run demo_pipeline demo_unseen (new_session ''sp''))) ''A'' = None"
  by (simp_all add: demo_eval)

lemma demo_prefetch_steps:
  "download_calls (step demo_pipeline (run demo_pipeline demo_unseen (new_session ''sp''))
     (PreFetched 0 (Obj 3))) = []"
  "downloaded (info (step demo_pipeline (run demo_pipeline demo_unseen (new_session ''sp''))
     (PreFetched 0 (Obj 3)))) ''A'' = Some (Obj 3)"
  "map fst (download_calls (step demo_pipeline (run demo_pipeline demo_unseen (new_session ''sp''))
     (PreFetched 0 PyNone))) = [''A'']"
  "downloaded (info (step demo_pipeline (run demo_pipeline demo_unseen (new_session ''sp''))
     (PreFetched 0 PyNone))) ''A'' = None"
  by (simp_all add: demo_eval)

theorem prefetch_short_circuit_witness:
  "0 < length (chains (run demo_pipeline demo_unseen (new_session ''sp''))) \<and>
   c_stage (chains (run demo_pipeline demo_unseen (new_session ''sp'')) ! 0) = AwaitHook \<and>
   download_calls (step demo_pipeline (run demo_pipeline demo_unseen (new_session ''sp''))
     (PreFetched 0 (Obj 3))) = [] \<and>
   downloaded (info (step demo_pipeline (run demo_pipeline demo_unseen (new_session ''sp''))
     (PreFetched 0 (Obj 3)))) ''A'' = Some (Obj 3) \<and>
   map fst (download_calls (step demo_pipeline (run demo_pipeline demo_unseen (new_session ''sp''))
     (PreFetched 0 PyNone))) = [''A''] \<and>
   downloaded (info (step demo_pipeline (run demo_pipeline demo_unseen (new_session ''sp''))
     (PreFetched 0 PyNone))) ''A'' = None"
proof -
  have n: "0 < length (chains (run demo_pipeline demo_unseen (new_session ''sp'')))"
    by (simp add: demo_prefetch)
  show ?thesis
    using prefetch_short_circuit[OF n demo_prefetch(2), of "Obj 3"]
      prefetch_short_circuit[OF n demo_prefetch(2), of PyNone] n
    by (simp (no_asm) add: demo_prefetch demo_prefetch_steps del: step.simps)
qed

text \<open>
  C4 (FIFO fan-out). \<open>_process_request\<close> for a fingerprint without a cached result puts
  its new waiter at the end of the waiter list of that fingerprint. In a reachable state,
  the event that resolves the chain of a fingerprint (its download fires, or its
  \<open>media_to_download\<close> fires with a result other than \<open>None\<close>) fires exactly the waiters of
  the waiter list, in the order of the list, which is the order of their submissions.
\<close>

theorem fifo_fan_out:
  "(downloaded (info s) (request_fingerprint P q) = None \<longrightarrow>
      waiting (info (snd (snd (process_request P q s)))) (request_fingerprint P q) =
        Some ((case waiting (info s) (request_fingerprint P q) of None \<Rightarrow> [] | Some ws \<Rightarrow> ws) @
              [\<lparr>wad_id = next_wad s,
                wad_cb = (case callback q of Some c \<Rightarrow> c | None \<Rightarrow> (\<lambda>x. x)),
                wad_eb = errback q\<rparr>])) \<and>
   (n < length (chains (run P evs (new_session sp))) \<and>
    (e = Downloaded n r \<and> c_stage (chains (run P evs (new_session sp)) ! n) = AwaitDownload \<or>
     e = PreFetched n r \<and> r \<noteq> PyNone \<and>
       c_stage (chains (run P evs (new_session sp)) ! n) = AwaitHook) \<longrightarrow>
      (\<exists>ws. waiting (info (run P evs (new_session sp)))
               (c_fp (chains (run P evs (new_session sp)) ! n)) = Some ws \<and>
            map (\<lambda>x. (fst x, fst (snd x))) (fired (step P (run P evs (new_session sp)) e)) =
              map (\<lambda>x. (fst x, fst (snd x))) (fired (run P evs (new_session sp))) @
              map (\<lambda>w. (c_fp (chains (run P evs (new_session sp)) ! n), wad_id w)) ws))"
proof -
  let ?s = "run P evs (new_session sp)"
  have 1: "downloaded (info s) (request_fingerprint P q) = None \<longrightarrow>
      waiting (info (snd (snd (process_request P q s)))) (request_fingerprint P q) =
        Some ((case waiting (info s) (request_fingerprint P q) of None \<Rightarrow> [] | Some ws \<Rightarrow> ws) @
              [\<lparr>wad_id = next_wad s,
                wad_cb = (case callback q of Some c \<Rightarrow> c | None \<Rightarrow> (\<lambda>x. x)),
                wad_eb = errback q\<rparr>])"
    by (simp add: process_request_def Let_def)
  have 2: "\<exists>ws. waiting (info ?s) (c_fp (chains ?s ! n)) = Some ws \<and>
            map (\<lambda>x. (fst x, fst (snd x))) (fired (step P ?s e)) =
              map (\<lambda>x. (fst x, fst (snd x))) (fired ?s) @
              map (\<lambda>w. (c_fp (chains ?s ! n), wad_id w)) ws"
    if n: "n < length (chains ?s)"
      and e: "e = Downloaded n r \<and> c_stage (chains ?s ! n) = AwaitDownload \<or>
              e = PreFetched n r \<and> r \<noteq> PyNone \<and> c_stage (chains ?s ! n) = AwaitHook"
  proof -
    have p: "pending (chains ?s ! n)" using e by (auto simp add: pending_def)
    note rp = reach_pending[OF n p]
    from rp(2) obtain ws where ws: "waiting (info ?s) (c_fp (chains ?s ! n)) = Some ws" by blast
    from e show ?thesis
    proof
      assume e: "e = Downloaded n r \<and> c_stage (chains ?s ! n) = AwaitDownload"
      then have "step P ?s e = download_done P n r ?s" using n by simp
      then show ?thesis using ws rp(1)
        by (simp add: download_done_def Let_def chain_finish_fired cache_fired fanout_def o_def)
    next
      assume e: "e = PreFetched n r \<and> r \<noteq> PyNone \<and> c_stage (chains ?s ! n) = AwaitHook"
      then have "step P ?s e = prefetched P n r ?s" using n by simp
      then show ?thesis using ws rp(1) e
        by (simp add: prefetched_fired cache_fired fanout_def o_def)
    qed
  qed
  show ?thesis using 1 2 by blast
qed

lemma demo_fifo:
  "length (chains (run demo_pipeline demo_inflight (new_session ''sp''))) = 1"
  "c_stage (chains (run demo_pipeline demo_inflight (new_session ''sp'')) ! 0) = AwaitDownload"
  "map (\<lambda>x. (fst x, fst (snd x))) (fired (step demo_pipeline
     (run demo_pipeline demo_inflight (new_session ''sp'')) (Downloaded 0 (Obj 7)))) =
     [(''A'', 0), (''A'', 1), (''A'', 2)]"
  "downloaded (info (run demo_pipeline demo_inflight (new_session ''sp'')))
     ''A'' = None"
  "map wad_id (the (waiting (info (snd (snd (process_request demo_pipeline (demo_request ''A'')
     (run demo_pipeline demo_inflight (new_session ''sp''))))))
     ''A'')) = [0, 1, 2, 3]"
  "next_wad (run demo_pipeline demo_inflight (new_session ''sp'')) = 3"
  by (simp_all add: demo_eval)

theorem fifo_fan_out_witness:
  "downloaded (info (run demo_pipeline demo_inflight (new_session ''sp'')))
     (request_fingerprint demo_pipeline (demo_request ''A'')) = None \<and>
   map wad_id (the (waiting (info (snd (snd (process_request demo_pipeline (demo_request ''A'')
     (run demo_pipeline demo_inflight (new_session ''sp''))))))
     (request_fingerprint demo_pipeline (demo_request ''A'')))) = [0, 1, 2, 3] \<and>
   0 < length (chains (run demo_pipeline demo_inflight (new_session ''sp''))) \<and>
   c_stage (chains (run demo_pipeline demo_inflight (new_session ''sp'')) ! 0) = AwaitDownload \<and>
   map (\<lambda>x. (fst x, fst (snd x))) (fired (step demo_pipeline
     (run demo_pipeline demo_inflight (new_session ''sp'')) (Downloaded 0 (Obj 7)))) =
     [(''A'', 0), (''A'', 1), (''A'', 2)]"
  using fifo_fan_out[of "run demo_pipeline demo_inflight (new_session ''sp'')" demo_pipeline
      "demo_request ''A''" 0 demo_inflight "''sp''" "Downloaded 0 (Obj 7)" "Obj 7"]
  by (simp (no_asm) add: demo_fifo del: step.simps)

text \<open>
  C10 (callback detachment). \<open>_process_request\<close> returns the request with \<open>callback\<close> and
  \<open>errback\<close> set to \<open>None\<close>, whichever branch it takes. The callbacks it took off go to
  the caller's own Deferred: with a cached result that Deferred fires with the result passed
  through them; otherwise they sit on the waiter appended to the waiter list, and when the
  fingerprint is resolved every waiter of the list is fired with the outcome passed through
  its own callbacks, whoever started the fetch. The requests passed to
  \<open>media_to_download\<close> and to the download carry no callback and no errback.
\<close>

theorem callback_detachment:
  "fst (process_request P q s) = q\<lparr>callback := None, errback := None\<rparr> \<and>
   (\<forall>cached. downloaded (info s) (request_fingerprint P q) = Some cached \<longrightarrow>
      fst (snd (process_request P q s)) =
        Fired (addCallbacks (case callback q of Some c \<Rightarrow> c | None \<Rightarrow> (\<lambda>x. x)) (errback q) cached)) \<and>
   (downloaded (info s) (request_fingerprint P q) = None \<longrightarrow>
      (\<exists>ws. waiting (info (snd (snd (process_request P q s)))) (request_fingerprint P q) =
         Some (ws @ [\<lparr>wad_id = next_wad s,
                wad_cb = (case callback q of Some c \<Rightarrow> c | None \<Rightarrow> (\<lambda>x. x)),
                wad_eb = errback q\<rparr>]))) \<and>
   (fp \<in> downloading (info t) \<and> waiting (info t) fp = Some ws \<longrightarrow>
      fired (snd (cache_result_and_execute_waiters P r fp t)) =
        fired t @ map (\<lambda>w. (fp, wad_id w, sanitize r,
                         addCallbacks (wad_cb w) (wad_eb w) (sanitize r))) ws) \<and>
   (\<forall>x \<in> set (mtd_calls (run P evs (new_session sp))) \<union>
           set (download_calls (run P evs (new_session sp))).
      callback (snd x) = None \<and> errback (snd x) = None)"
proof -
  have "inv_req (run P evs (new_session sp))" by (rule inv_req_run)
  then have 5: "\<forall>x \<in> set (mtd_calls (run P evs (new_session sp))) \<union>
           set (download_calls (run P evs (new_session sp))).
      callback (snd x) = None \<and> errback (snd x) = None"
    unfolding inv_req_def detached_def by blast
  have 3: "downloaded (info s) (request_fingerprint P q) = None \<longrightarrow>
      (\<exists>ws. waiting (info (snd (snd (process_request P q s)))) (request_fingerprint P q) =
         Some (ws @ [\<lparr>wad_id = next_wad s,
                wad_cb = (case callback q of Some c \<Rightarrow> c | None \<Rightarrow> (\<lambda>x. x)),
                wad_eb = errback q\<rparr>]))"
    by (simp add: process_request_def Let_def)
  have 2: "\<forall>cached. downloaded (info s) (request_fingerprint P q) = Some cached \<longrightarrow>
      fst (snd (process_request P q s)) =
        Fired (addCallbacks (case callback q of Some c \<Rightarrow> c | None \<Rightarrow> (\<lambda>x. x)) (errback q) cached)"
    by (simp add: process_request_cached)
  have 4: "fp \<in> downloading (info t) \<and> waiting (info t) fp = Some ws \<longrightarrow>
      fired (snd (cache_result_and_execute_waiters P r fp t)) =
        fired t @ map (\<lambda>w. (fp, wad_id w, sanitize r,
                         addCallbacks (wad_cb w) (wad_eb w) (sanitize r))) ws"
    by (simp add: cache_fired fanout_def)
  show ?thesis using 2 3 4 5 by (simp only: process_request_fst)
qed

lemma demo_caller_fields:
  "callback demo_caller \<noteq> None" "request_fingerprint demo_pipeline demo_caller = ''A''"
  by (simp_all add: demo_caller_def demo_pipeline_def)

lemma demo_detach:
  "callback (fst (process_request demo_pipeline demo_caller
     (run demo_pipeline demo_unseen (new_session ''sp'')))) = None"
  "errback (fst (process_request demo_pipeline demo_caller
     (run demo_pipeline demo_unseen (new_session ''sp'')))) = None"
  "downloaded (info (run demo_pipeline demo_unseen (new_session ''sp''))) ''A'' = None"
  "''A'' \<in> downloading (info (snd (snd (process_request demo_pipeline demo_caller
     (run demo_pipeline demo_unseen (new_session ''sp''))))))"
  "map (\<lambda>x. (fst (snd x), snd (snd (snd x))))
     (fired (snd (cache_result_and_execute_waiters demo_pipeline (Obj 7) ''A''
       (snd (snd (process_request demo_pipeline demo_caller
         (run demo_pipeline demo_unseen (new_session ''sp''))))))))
     = [(0, Obj 7), (1, Obj 7), (2, Obj 1)]"
  "map (\<lambda>x. (fst x, callback (snd x), errback (snd x)))
     (mtd_calls (run demo_pipeline [Submit demo_caller] (new_session ''sp''))) =
     [(''A'', None, None)]"
  "waiting (info (snd (snd (process_request demo_pipeline demo_caller
     (run demo_pipeline demo_unseen (new_session ''sp'')))))) ''A'' =
     Some [\<lparr>wad_id = 0, wad_cb = (\<lambda>x. x), wad_eb = None\<rparr>,
           \<lparr>wad_id = 1, wad_cb = (\<lambda>x. x), wad_eb = None\<rparr>,
           \<lparr>wad_id = 2, wad_cb = (\<lambda>r. Obj 1), wad_eb = Some (\<lambda>r. Obj 2)\<rparr>]"
  by (simp_all add: demo_eval)

theorem callback_detachment_witness:
  "callback demo_caller \<noteq> None \<and>
   callback (fst (process_request demo_pipeline demo_caller
     (run demo_pipeline demo_unseen (new_session ''sp'')))) = None \<and>
   errback (fst (process_request demo_pipeline demo_caller
     (run demo_pipeline demo_unseen (new_session ''sp'')))) = None \<and>
   downloaded (info (run demo_pipeline demo_unseen (new_session ''sp'')))
     (request_fingerprint demo_pipeline demo_caller) = None \<and>
   map (\<lambda>x. (fst (snd x), snd (snd (snd x))))
     (fired (snd (cache_result_and_execute_waiters demo_pipeline (Obj 7) ''A''
       (snd (snd (process_request demo_pipeline demo_caller
         (run demo_pipeline demo_unseen (new_session ''sp''))))))))
     = [(0, Obj 7), (1, Obj 7), (2, Obj 1)] \<and>
   map (\<lambda>x. (fst x, callback (snd x), errback (snd x)))
     (mtd_calls (run demo_pipeline [Submit demo_caller] (new_session ''sp''))) =
     [(''A'', None, None)]"
  using callback_detachment[where P = demo_pipeline and q = demo_caller
      and s = "run demo_pipeline demo_unseen (new_session ''sp'')" and fp = "''A''"
      and t = "snd (snd (process_request demo_pipeline demo_caller
         (run demo_pipeline demo_unseen (new_session ''sp''))))"
      and ws = "[\<lparr>wad_id = 0, wad_cb = (\<lambda>x. x), wad_eb = None\<rparr>,
           \<lparr>wad_id = 1, wad_cb = (\<lambda>x. x), wad_eb = None\<rparr>,
           \<lparr>wad_id = 2, wad_cb = (\<lambda>r. Obj 1), wad_eb = Some (\<lambda>r. Obj 2)\<rparr>]"
      and r = "Obj 7" and evs = "[Submit demo_caller]" and sp = "''sp''"]
  by (simp (no_asm) add: demo_detach demo_caller_fields)

text \<open>
  C9 (session isolation). \<open>open_spider\<close> makes a new \<open>SpiderInfo\<close> with empty
  \<open>downloading\<close>, \<open>downloaded\<close> and \<open>waiting\<close> and makes it the current one, whatever the
  pipeline held before. A request submitted to it is fetched anew: its chain is the first of
  the session and \<open>media_to_download\<close> is called for it. As long as no other session is
  opened, the state of the new session is the one that its own events (the items processed
  and the firings of its own Deferreds) produce from the empty session: nothing of an
  earlier session, and no late firing of an earlier session's Deferreds, shows in it.
\<close>

theorem session_isolation:
  "spiderinfo (open_spider sp w) = Some (length (sessions w)) \<and>
   sessions (open_spider sp w) ! length (sessions w) = new_session sp \<and>
   downloading (info (new_session sp :: ('k, 'v, 'i) session)) = {} \<and>
   downloaded (info (new_session sp :: ('k, 'v, 'i) session)) = Map.empty \<and>
   waiting (info (new_session sp :: ('k, 'v, 'i) session)) = Map.empty \<and>
   fst (snd (process_request P q (new_session sp))) = ChainD 0 \<and>
   mtd_calls (snd (snd (process_request P q (new_session sp)))) =
     [(request_fingerprint P q, q\<lparr>callback := None, errback := None\<rparr>)] \<and>
   (\<not> list_ex is_open evs \<longrightarrow>
      spiderinfo (pipeline_run P evs (open_spider sp w)) = Some (length (sessions w)) \<and>
      sessions (pipeline_run P evs (open_spider sp w)) ! length (sessions w) =
        run P (own_events (length (sessions w)) evs) (new_session sp))"
proof -
  have 1: "spiderinfo (open_spider sp w) = Some (length (sessions w))"
    "sessions (open_spider sp w) ! length (sessions w) = new_session sp"
    "length (sessions w) < length (sessions (open_spider sp w))"
    by (simp_all add: open_spider_def)
  have 2: "downloading (info (new_session sp :: ('k, 'v, 'i) session)) = {}"
    "downloaded (info (new_session sp :: ('k, 'v, 'i) session)) = Map.empty"
    "waiting (info (new_session sp :: ('k, 'v, 'i) session)) = Map.empty"
    by (simp_all add: new_session_def SpiderInfo_init_def)
  have 3: "fst (snd (process_request P q (new_session sp))) = ChainD 0"
    "mtd_calls (snd (snd (process_request P q (new_session sp)))) =
     [(request_fingerprint P q, q\<lparr>callback := None, errback := None\<rparr>)]"
    by (simp_all add: process_request_def Let_def new_session_def SpiderInfo_init_def)
  have 4: "spiderinfo (pipeline_run P evs (open_spider sp w)) = Some (length (sessions w)) \<and>
      sessions (pipeline_run P evs (open_spider sp w)) ! length (sessions w) =
        run P (own_events (length (sessions w)) evs) (new_session sp)"
    if "\<not> list_ex is_open evs"
    using pipeline_run_current[OF 1(1) 1(3) that, of P] 1(2) by simp
  show ?thesis using 1(1,2) 2 3 4 by blast
qed

lemma demo_isolation:
  "length (sessions demo_first) = 1"
  "downloaded (info (sessions demo_first ! 0)) ''B'' = Some (Obj 9)"
  "downloaded (info (sessions (pipeline_run demo_pipeline [Item 2, Fires 0 (PreFetched 0 PyNone)]
     (open_spider ''s2'' demo_first)) ! 1)) ''B'' = None"
  "map fst (mtd_calls (sessions (pipeline_run demo_pipeline [Item 2, Fires 0 (PreFetched 0 PyNone)]
     (open_spider ''s2'' demo_first)) ! 1)) = [''B'']"
  "spiderinfo (pipeline_run demo_pipeline [Item 2, Fires 0 (PreFetched 0 PyNone)]
     (open_spider ''s2'' demo_first)) = Some 1"
  by (simp_all add: demo_eval)

theorem session_isolation_witness:
  "downloaded (info (sessions demo_first ! 0)) ''B'' = Some (Obj 9) \<and>
   \<not> list_ex is_open [Item 2, Fires 0 (PreFetched 0 PyNone) :: (nat, nat) pipeline_event] \<and>
   spiderinfo (pipeline_run demo_pipeline [Item 2, Fires 0 (PreFetched 0 PyNone)]
     (open_spider ''s2'' demo_first)) = Some 1 \<and>
   downloaded (info (sessions (pipeline_run demo_pipeline [Item 2, Fires 0 (PreFetched 0 PyNone)]
     (open_spider ''s2'' demo_first)) ! 1)) ''B'' = None \<and>
   map fst (mtd_calls (sessions (pipeline_run demo_pipeline [Item 2, Fires 0 (PreFetched 0 PyNone)]
     (open_spider ''s2'' demo_first)) ! 1)) = [''B'']"
  using session_isolation[where sp = "''s2''" and w = demo_first and P = demo_pipeline
      and q = "demo_request ''B''" and evs = "[Item 2, Fires 0 (PreFetched 0 PyNone)]"]
  by (simp (no_asm) add: demo_isolation del: One_nat_def)

text \<open>
  C3 (AND-join completeness), as amended. \<open>process_item\<close> passes the references of the
  item to \<open>_process_request\<close> in the order of the iteration, and it returns exactly when the
  extraction of the references ran to its end. For an item processed after the events \<open>evs\<close>
  whose extraction ran to its end, whatever events \<open>evs'\<close> follow: the item has its own
  barrier; \<open>item_completed\<close> has been called for that barrier exactly once if every
  reference submitted for the item is resolved and not at all otherwise; the list it was
  called with holds, for each reference in the order of submission, the cached outcome of
  the reference passed through the callbacks the request had when it was submitted, tagged
  with whether that is not a failure; and when the item has no reference the call is made by
  \<open>process_item\<close> itself, with the empty list. For an item whose extraction raised, no
  barrier is built and \<open>item_completed\<close> is never called with that item.
\<close>

theorem and_join:
  "submits (run P (evs @ [ProcessItem item]) (new_session sp)) =
     submits (run P evs (new_session sp)) @ map (request_fingerprint P) (submitted P item) \<and>
   (fst (process_item P item (run P evs (new_session sp))) = None) = extracted P item \<and>
   (extracted P item \<longrightarrow>
      length (dlists (run P evs (new_session sp))) <
        length (dlists (run P (evs @ ProcessItem item # evs') (new_session sp))) \<and>
      dl_item (dlists (run P (evs @ ProcessItem item # evs') (new_session sp)) !
        length (dlists (run P evs (new_session sp)))) = item \<and>
      count_list (map fst (completed (run P (evs @ ProcessItem item # evs') (new_session sp))))
          (length (dlists (run P evs (new_session sp)))) =
        (if \<forall>q \<in> set (submitted P item).
              request_fingerprint P q \<in>
                dom (downloaded (info (run P (evs @ ProcessItem item # evs') (new_session sp))))
         then 1 else 0) \<and>
      (\<forall>res. (length (dlists (run P evs (new_session sp))), res) \<in>
              set (completed (run P (evs @ ProcessItem item # evs') (new_session sp))) \<longrightarrow>
         res = map (entry_of P (run P (evs @ ProcessItem item # evs') (new_session sp)))
                 (submitted P item)) \<and>
      (submitted P item = [] \<longrightarrow>
         (length (dlists (run P evs (new_session sp))), []) \<in>
           set (completed (run P (evs @ [ProcessItem item]) (new_session sp))))) \<and>
   (\<not> extracted P item \<longrightarrow>
      dlists (run P (evs @ [ProcessItem item]) (new_session sp)) =
        dlists (run P evs (new_session sp)) \<and>
      (\<forall>x \<in> set (completed (run P (evs @ ProcessItem item # evs') (new_session sp))).
         fst x < length (dlists (run P (evs @ ProcessItem item # evs') (new_session sp))) \<and>
         dl_item (dlists (run P (evs @ ProcessItem item # evs') (new_session sp)) ! fst x) \<noteq> item))"
proof -
  let ?s = "run P evs (new_session sp)"
  let ?S = "run P (evs @ ProcessItem item # evs') (new_session sp)"
  let ?d = "length (dlists ?s)"
  have 0: "submits (run P (evs @ [ProcessItem item]) (new_session sp)) =
      submits ?s @ map (request_fingerprint P) (submitted P item)"
    by (simp add: run_snoc process_item_submits del: step.simps)
  have 1: "?d < length (dlists ?S) \<and> dl_item (dlists ?S ! ?d) = item \<and>
      count_list (map fst (completed ?S)) ?d =
        (if \<forall>q \<in> set (submitted P item). request_fingerprint P q \<in> dom (downloaded (info ?S))
         then 1 else 0) \<and>
      (\<forall>res. (?d, res) \<in> set (completed ?S) \<longrightarrow> res = map (entry_of P ?S) (submitted P item)) \<and>
      (submitted P item = [] \<longrightarrow>
         (?d, []) \<in> set (completed (run P (evs @ [ProcessItem item]) (new_session sp))))"
    if ex: "extracted P item"
  proof -
    note ib = item_barrier[OF ex, where evs = evs and s = "new_session sp" and evs' = evs']
    have cnt: "count_list (map fst (completed ?S)) ?d =
        (if \<forall>q \<in> set (submitted P item). request_fingerprint P q \<in> dom (downloaded (info ?S))
         then 1 else 0)"
      using barrier_count[OF ib(1)] by (simp only: ib(2))
    have ent: "res = map (entry_of P ?S) (submitted P item)" if "(?d, res) \<in> set (completed ?S)" for res
      using barrier_entries(3)[OF that] by (simp only: ib(2))
    have emp: "(?d, []) \<in> set (completed (run P (evs @ [ProcessItem item]) (new_session sp)))"
      if "submitted P item = []"
      using process_item_empty[OF ex that, of ?s] by (simp add: run_snoc)
    show ?thesis using ib cnt ent emp by blast
  qed
  have 2: "dlists (run P (evs @ [ProcessItem item]) (new_session sp)) = dlists ?s \<and>
      (\<forall>x \<in> set (completed ?S). fst x < length (dlists ?S) \<and> dl_item (dlists ?S ! fst x) \<noteq> item)"
    if nex: "\<not> extracted P item"
  proof -
    have "fst x < length (dlists ?S) \<and> dl_item (dlists ?S ! fst x) \<noteq> item"
      if "x \<in> set (completed ?S)" for x
    proof -
      from that have "(fst x, snd x) \<in> set (completed ?S)" by simp
      from barrier_entries(1,2)[OF this] show ?thesis using nex by auto
    qed
    then show ?thesis using process_item_raised[OF nex, of ?s] by (simp add: run_snoc)
  qed
  show ?thesis using 0 1 2 process_item_fst[of P item ?s] by blast
qed

lemma demo_and_join:
  "extracted demo_twice 0"
  "submitted demo_twice 0 = [demo_caller, demo_caller\<lparr>callback := None, errback := None\<rparr>]"
  "request_fingerprint demo_twice demo_caller = ''A''"
  "request_fingerprint demo_twice (demo_caller\<lparr>callback := None, errback := None\<rparr>) = ''A''"
  "dlists (run demo_twice [] (new_session ''sp'')) = []"
  "submits (run demo_twice [ProcessItem 0] (new_session ''sp'')) = [''A'', ''A'']"
  "downloaded (info (run demo_twice [ProcessItem 0, PreFetched 0 (Obj 5)] (new_session ''sp''))) ''A'' =
     Some (Obj 5)"
  "completed (run demo_twice [ProcessItem 0, PreFetched 0 (Obj 5)] (new_session ''sp'')) =
     [(0, [(True, Obj 1), (True, Obj 5)])]"
  "completed (run demo_twice [ProcessItem 0] (new_session ''sp'')) = []"
  by (simp_all add: demo_eval)

lemma demo_and_join_empty:
  "extracted demo_pipeline 3"
  "submitted demo_pipeline 3 = []"
  "dlists (run demo_pipeline [] (new_session ''sp'')) = []"
  "completed (run demo_pipeline [ProcessItem 3] (new_session ''sp'')) = [(0, [])]"
  by (simp_all add: demo_eval)

lemma demo_and_join_lazy:
  "\<not> extracted demo_lazy 0"
  "fst (process_item demo_lazy 0 (run demo_lazy [] (new_session ''sp''))) = Some demo_failure"
  "submits (run demo_lazy [ProcessItem 0] (new_session ''sp'')) = [''A'']"
  "completed (run demo_lazy [ProcessItem 0, PreFetched 0 (Obj 5)] (new_session ''sp'')) = []"
  "dlists (run demo_lazy [ProcessItem 0] (new_session ''sp'')) = []"
  "dlists (run demo_lazy [] (new_session ''sp'')) = []"
  by (simp_all add: demo_eval)

theorem and_join_witness:
  "extracted demo_twice 0 \<and>
   submitted demo_twice 0 = [demo_caller, demo_caller\<lparr>callback := None, errback := None\<rparr>] \<and>
   submits (run demo_twice [ProcessItem 0] (new_session ''sp'')) = [''A'', ''A''] \<and>
   count_list (map fst (completed
     (run demo_twice [ProcessItem 0, PreFetched 0 (Obj 5)] (new_session ''sp'')))) 0 = 1 \<and>
   completed (run demo_twice [ProcessItem 0, PreFetched 0 (Obj 5)] (new_session ''sp'')) =
     [(0, [(True, Obj 1), (True, Obj 5)])] \<and>
   completed (run demo_twice [ProcessItem 0] (new_session ''sp'')) = [] \<and>
   extracted demo_pipeline 3 \<and> submitted demo_pipeline 3 = [] \<and>
   completed (run demo_pipeline [ProcessItem 3] (new_session ''sp'')) = [(0, [])] \<and>
   \<not> extracted demo_lazy 0 \<and>
   fst (process_item demo_lazy 0 (run demo_lazy [] (new_session ''sp''))) = Some demo_failure \<and>
   submits (run demo_lazy [ProcessItem 0] (new_session ''sp'')) = [''A''] \<and>
   completed (run demo_lazy [ProcessItem 0, PreFetched 0 (Obj 5)] (new_session ''sp'')) = []"
  using and_join[where P = demo_twice and item = 0 and evs = "[]"
      and evs' = "[PreFetched 0 (Obj 5)]" and sp = "''sp''"]
    and_join[where P = demo_pipeline and item = 3 and evs = "[]" and evs' = "[]" and sp = "''sp''"]
    and_join[where P = demo_lazy and item = 0 and evs = "[]"
      and evs' = "[PreFetched 0 (Obj 5)]" and sp = "''sp''"]
  by (simp (no_asm) add: demo_and_join demo_and_join_empty demo_and_join_lazy del: step.simps)

text \<open>
  The claim read for every item fails. The iteration of what \<open>get_media_requests\<close>
  returned for the item yields A and then raises: A is submitted and resolves, the exception
  leaves \<open>process_item\<close>, no barrier is built and \<open>item_completed\<close> is not called.
\<close>

theorem and_join_counterexample:
  "get_media_requests demo_lazy 0 = Inr (ArgIter [(0, demo_request ''A'')] (Some demo_failure)) \<and>
   fst (process_item demo_lazy 0 (new_session ''sp'')) = Some demo_failure \<and>
   submits (run demo_lazy [ProcessItem 0, PreFetched 0 (Obj 5)] (new_session ''sp'')) = [''A''] \<and>
   downloaded (info (run demo_lazy [ProcessItem 0, PreFetched 0 (Obj 5)] (new_session ''sp''))) ''A'' =
     Some (Obj 5) \<and>
   dlists (run demo_lazy [ProcessItem 0, PreFetched 0 (Obj 5)] (new_session ''sp'')) = [] \<and>
   completed (run demo_lazy [ProcessItem 0, PreFetched 0 (Obj 5)] (new_session ''sp'')) = []"
  by (simp add: demo_eval)

text \<open>
  C6 (hook-failure isolation), as amended. \<open>process_item\<close> returns exactly when the
  extraction of the item's references ran to its end, and the references it submits are
  those the iteration yielded. For an item processed after the events \<open>evs\<close> whose
  extraction ran to its end, whatever the other hooks return or raise and whatever events
  \<open>evs'\<close> follow: the item has its own barrier, and once every reference submitted for the
  item is resolved, \<open>item_completed\<close> has been called for it with one entry per reference,
  each tagged ok exactly when its outcome is not a failure. When the extraction raises, the
  exception leaves \<open>process_item\<close>; no barrier is built, no call of \<open>item_completed\<close> and
  no cached outcome is added or changed, and \<open>item_completed\<close> is never called with that
  item. What a post-fetch handler returns or raises is what gets cached for the fingerprint
  of its chain, and a failure of \<open>media_to_download\<close> is cached for the fingerprint of its
  chain; no other fingerprint is touched. Caching and fan-out never raise: the logging
  errback of a chain never runs.
\<close>

theorem hook_isolation:
  "submits (run P (evs @ [ProcessItem item]) (new_session sp)) =
     submits (run P evs (new_session sp)) @ map (request_fingerprint P) (submitted P item) \<and>
   (fst (process_item P item (run P evs (new_session sp))) = None) = extracted P item \<and>
   (extracted P item \<longrightarrow>
      length (dlists (run P evs (new_session sp))) <
        length (dlists (run P (evs @ ProcessItem item # evs') (new_session sp))) \<and>
      dl_item (dlists (run P (evs @ ProcessItem item # evs') (new_session sp)) !
        length (dlists (run P evs (new_session sp)))) = item \<and>
      ((\<forall>q \<in> set (submitted P item).
           request_fingerprint P q \<in>
             dom (downloaded (info (run P (evs @ ProcessItem item # evs') (new_session sp))))) \<longrightarrow>
       (\<exists>res. (length (dlists (run P evs (new_session sp))), res) \<in>
                 set (completed (run P (evs @ ProcessItem item # evs') (new_session sp))) \<and>
              length res = length (submitted P item) \<and>
              (\<forall>x \<in> set res. fst x = (\<not> is_failure (snd x)))))) \<and>
   (\<not> extracted P item \<longrightarrow>
      dlists (step P (run P evs (new_session sp)) (ProcessItem item)) =
        dlists (run P evs (new_session sp)) \<and>
      completed (step P (run P evs (new_session sp)) (ProcessItem item)) =
        completed (run P evs (new_session sp)) \<and>
      downloaded (info (step P (run P evs (new_session sp)) (ProcessItem item))) =
        downloaded (info (run P evs (new_session sp))) \<and>
      (\<forall>x \<in> set (completed (run P (evs @ ProcessItem item # evs') (new_session sp))).
         dl_item (dlists (run P (evs @ ProcessItem item # evs') (new_session sp)) ! fst x) \<noteq> item)) \<and>
   (n < length (chains (run P evs (new_session sp))) \<and>
    c_stage (chains (run P evs (new_session sp)) ! n) = AwaitDownload \<longrightarrow>
      downloaded (info (step P (run P evs (new_session sp)) (Downloaded n r)))
        (c_fp (chains (run P evs (new_session sp)) ! n)) =
        Some (sanitize (if is_failure r
                        then media_failed P r (c_request (chains (run P evs (new_session sp)) ! n))
                        else media_downloaded P r (c_request (chains (run P evs (new_session sp)) ! n)))) \<and>
      (\<forall>k. k \<noteq> c_fp (chains (run P evs (new_session sp)) ! n) \<longrightarrow>
          downloaded (info (step P (run P evs (new_session sp)) (Downloaded n r))) k =
          downloaded (info (run P evs (new_session sp))) k)) \<and>
   (m < length (chains (run P evs (new_session sp))) \<and>
    c_stage (chains (run P evs (new_session sp)) ! m) = AwaitHook \<and> is_failure h \<longrightarrow>
      downloaded (info (step P (run P evs (new_session sp)) (PreFetched m h)))
        (c_fp (chains (run P evs (new_session sp)) ! m)) = Some (sanitize h) \<and>
      (\<forall>k. k \<noteq> c_fp (chains (run P evs (new_session sp)) ! m) \<longrightarrow>
          downloaded (info (step P (run P evs (new_session sp)) (PreFetched m h))) k =
          downloaded (info (run P evs (new_session sp))) k)) \<and>
   errors_logged (run P evs (new_session sp)) = 0"
proof -
  let ?s = "run P evs (new_session sp)"
  let ?S = "run P (evs @ ProcessItem item # evs') (new_session sp)"
  let ?d = "length (dlists ?s)"
  have 0: "submits (run P (evs @ [ProcessItem item]) (new_session sp)) =
      submits ?s @ map (request_fingerprint P) (submitted P item)"
    by (simp add: run_snoc process_item_submits del: step.simps)
  have 1: "?d < length (dlists ?S) \<and> dl_item (dlists ?S ! ?d) = item \<and>
      ((\<forall>q \<in> set (submitted P item). request_fingerprint P q \<in> dom (downloaded (info ?S))) \<longrightarrow>
       (\<exists>res. (?d, res) \<in> set (completed ?S) \<and> length res = length (submitted P item) \<and>
              (\<forall>x \<in> set res. fst x = (\<not> is_failure (snd x)))))"
    if ex: "extracted P item"
  proof -
    note ib = item_barrier[OF ex, where evs = evs and s = "new_session sp" and evs' = evs']
    have "\<exists>res. (?d, res) \<in> set (completed ?S) \<and> length res = length (submitted P item) \<and>
              (\<forall>x \<in> set res. fst x = (\<not> is_failure (snd x)))"
      if all: "\<forall>q \<in> set (submitted P item). request_fingerprint P q \<in> dom (downloaded (info ?S))"
    proof -
      have "(?d, map (entry_of P ?S) (submitted P item)) \<in> set (completed ?S)"
        using join_resolved(2)[OF ib(1)] all by (simp only: ib(2))
      moreover have "length (map (entry_of P ?S) (submitted P item)) = length (submitted P item)"
        by simp
      moreover have "\<forall>x \<in> set (map (entry_of P ?S) (submitted P item)). fst x = (\<not> is_failure (snd x))"
        using entry_of_tag[of P ?S] by auto
      ultimately show ?thesis by blast
    qed
    then show ?thesis using ib by blast
  qed
  have 2: "dlists (step P ?s (ProcessItem item)) = dlists ?s \<and>
      completed (step P ?s (ProcessItem item)) = completed ?s \<and>
      downloaded (info (step P ?s (ProcessItem item))) = downloaded (info ?s) \<and>
      (\<forall>x \<in> set (completed ?S). dl_item (dlists ?S ! fst x) \<noteq> item)"
    if nex: "\<not> extracted P item"
  proof -
    have "dl_item (dlists ?S ! fst x) \<noteq> item" if "x \<in> set (completed ?S)" for x
    proof -
      from that have "(fst x, snd x) \<in> set (completed ?S)" by simp
      from barrier_entries(2)[OF this] show ?thesis using nex by auto
    qed
    then show ?thesis using process_item_raised[OF nex, of ?s] by (simp del: step.simps)
  qed
  have 3: "downloaded (info (step P ?s (Downloaded n r))) (c_fp (chains ?s ! n)) =
        Some (sanitize (if is_failure r then media_failed P r (c_request (chains ?s ! n))
                        else media_downloaded P r (c_request (chains ?s ! n)))) \<and>
      (\<forall>k. k \<noteq> c_fp (chains ?s ! n) \<longrightarrow>
          downloaded (info (step P ?s (Downloaded n r))) k = downloaded (info ?s) k)"
    if n: "n < length (chains ?s)" and st: "c_stage (chains ?s ! n) = AwaitDownload"
  proof -
    have p: "pending (chains ?s ! n)" using st by (simp add: pending_def)
    note rp = reach_pending[OF n p]
    have "step P ?s (Downloaded n r) = download_done P n r ?s" using n st by simp
    then show ?thesis using rp(1) by (simp add: download_done_info cache_info)
  qed
  have 4: "downloaded (info (step P ?s (PreFetched m h))) (c_fp (chains ?s ! m)) = Some (sanitize h) \<and>
      (\<forall>k. k \<noteq> c_fp (chains ?s ! m) \<longrightarrow>
          downloaded (info (step P ?s (PreFetched m h))) k = downloaded (info ?s) k)"
    if m: "m < length (chains ?s)" and st: "c_stage (chains ?s ! m) = AwaitHook" and h: "is_failure h"
  proof -
    have p: "pending (chains ?s ! m)" using st by (simp add: pending_def)
    note rp = reach_pending[OF m p]
    have ne: "h \<noteq> PyNone" using h by auto
    have "step P ?s (PreFetched m h) = prefetched P m h ?s" using m st by simp
    then show ?thesis using rp(1) ne by (simp add: prefetched_info cache_info)
  qed
  have 5: "errors_logged ?s = 0" by (rule run_no_error)
  show ?thesis using 0 1 2 3 4 5 process_item_fst[of P item ?s] by blast
qed

lemma demo_hook_isolation:
  "extracted demo_raising 1"
  "submitted demo_raising 1 = [demo_request ''A'', demo_request ''B'']"
  "request_fingerprint demo_raising (demo_request u) = u"
  "dlists (run demo_raising [] (new_session ''sp'')) = []"
  "submits (run demo_raising [ProcessItem 1] (new_session ''sp'')) = [''A'', ''B'']"
  "dom (downloaded (info (run demo_raising [ProcessItem 1, PreFetched 0 PyNone,
     PreFetched 1 (Fail demo_failure), Downloaded 0 (Obj 10)] (new_session ''sp'')))) = {''A'', ''B''}"
  "completed (run demo_raising [ProcessItem 1, PreFetched 0 PyNone,
     PreFetched 1 (Fail demo_failure), Downloaded 0 (Obj 10)] (new_session ''sp'')) =
     [(0, [(False, Fail demo_clean), (False, Fail demo_clean)])]"
  "map dl_called (dlists (run demo_raising [ProcessItem 1, PreFetched 0 PyNone,
     PreFetched 1 (Fail demo_failure), Downloaded 0 (Obj 10)] (new_session ''sp''))) =
     [Some (Inl demo_failure)]"
  "length (chains (run demo_raising [ProcessItem 1, PreFetched 0 PyNone] (new_session ''sp''))) = 2"
  "c_stage (chains (run demo_raising [ProcessItem 1, PreFetched 0 PyNone] (new_session ''sp'')) ! 0) =
     AwaitDownload"
  "c_stage (chains (run demo_raising [ProcessItem 1, PreFetched 0 PyNone] (new_session ''sp'')) ! 1) =
     AwaitHook"
  "downloaded (info (step demo_raising
     (run demo_raising [ProcessItem 1, PreFetched 0 PyNone] (new_session ''sp''))
     (Downloaded 0 (Obj 10)))) ''A'' = Some (Fail demo_clean)"
  "downloaded (info (step demo_raising
     (run demo_raising [ProcessItem 1, PreFetched 0 PyNone] (new_session ''sp''))
     (Downloaded 0 (Obj 10)))) ''B'' = None"
  "downloaded (info (step demo_raising
     (run demo_raising [ProcessItem 1, PreFetched 0 PyNone] (new_session ''sp''))
     (PreFetched 1 (Fail demo_failure)))) ''B'' = Some (Fail demo_clean)"
  "downloaded (info (step demo_raising
     (run demo_raising [ProcessItem 1, PreFetched 0 PyNone] (new_session ''sp''))
     (PreFetched 1 (Fail demo_failure)))) ''A'' = None"
  "errors_logged (run demo_raising [ProcessItem 1, PreFetched 0 PyNone] (new_session ''sp'')) = 0"
  by (simp_all add: demo_eval)

lemma demo_hook_isolation_raise:
  "\<not> extracted demo_pipeline 0"
  "fst (process_item demo_pipeline 0 (run demo_pipeline [ProcessItem 1] (new_session ''sp''))) =
     Some demo_failure"
  "step demo_pipeline (run demo_pipeline [ProcessItem 1] (new_session ''sp'')) (ProcessItem 0) =
     run demo_pipeline [ProcessItem 1] (new_session ''sp'')"
  by (simp_all add: demo_eval)

theorem hook_isolation_witness:
  "extracted demo_raising 1 \<and>
   submitted demo_raising 1 = [demo_request ''A'', demo_request ''B''] \<and>
   submits (run demo_raising [ProcessItem 1] (new_session ''sp'')) = [''A'', ''B''] \<and>
   completed (run demo_raising [ProcessItem 1, PreFetched 0 PyNone,
     PreFetched 1 (Fail demo_failure), Downloaded 0 (Obj 10)] (new_session ''sp'')) =
     [(0, [(False, Fail demo_clean), (False, Fail demo_clean)])] \<and>
   map dl_called (dlists (run demo_raising [ProcessItem 1, PreFetched 0 PyNone,
     PreFetched 1 (Fail demo_failure), Downloaded 0 (Obj 10)] (new_session ''sp''))) =
     [Some (Inl demo_failure)] \<and>
   c_stage (chains (run demo_raising [ProcessItem 1, PreFetched 0 PyNone] (new_session ''sp'')) ! 0) =
     AwaitDownload \<and>
   downloaded (info (step demo_raising
     (run demo_raising [ProcessItem 1, PreFetched 0 PyNone] (new_session ''sp''))
     (Downloaded 0 (Obj 10)))) ''A'' = Some (Fail demo_clean) \<and>
   downloaded (info (step demo_raising
     (run demo_raising [ProcessItem 1, PreFetched 0 PyNone] (new_session ''sp''))
     (Downloaded 0 (Obj 10)))) ''B'' = None \<and>
   c_stage (chains (run demo_raising [ProcessItem 1, PreFetched 0 PyNone] (new_session ''sp'')) ! 1) =
     AwaitHook \<and>
   downloaded (info (step demo_raising
     (run demo_raising [ProcessItem 1, PreFetched 0 PyNone] (new_session ''sp''))
     (PreFetched 1 (Fail demo_failure)))) ''B'' = Some (Fail demo_clean) \<and>
   errors_logged (run demo_raising [ProcessItem 1, PreFetched 0 PyNone] (new_session ''sp'')) = 0 \<and>
   \<not> extracted demo_pipeline 0 \<and>
   fst (process_item demo_pipeline 0 (run demo_pipeline [ProcessItem 1] (new_session ''sp''))) =
     Some demo_failure \<and>
   step demo_pipeline (run demo_pipeline [ProcessItem 1] (new_session ''sp'')) (ProcessItem 0) =
     run demo_pipeline [ProcessItem 1] (new_session ''sp'')"
  using hook_isolation[where P = demo_raising and item = 1 and evs = "[]"
      and evs' = "[PreFetched 0 PyNone, PreFetched 1 (Fail demo_failure), Downloaded 0 (Obj 10)]"
      and sp = "''sp''" and n = 0 and r = "Obj 10" and m = 0 and h = "Fail demo_failure"]
    hook_isolation[where P = demo_raising and item = 1
      and evs = "[ProcessItem 1, PreFetched 0 PyNone]" and evs' = "[]"
      and sp = "''sp''" and n = 0 and r = "Obj 10" and m = 1 and h = "Fail demo_failure"]
    hook_isolation[where P = demo_pipeline and item = 0 and evs = "[ProcessItem 1]" and evs' = "[]"
      and sp = "''sp''" and n = 0 and r = "Obj 10" and m = 0 and h = "Fail demo_failure"]
  by (simp (no_asm) add: demo_hook_isolation demo_hook_isolation_raise del: step.simps One_nat_def)

text \<open>
  The claim read for every item fails: when \<open>get_media_requests\<close> raises for an item,
  the exception leaves \<open>process_item\<close>, no barrier is built and \<open>item_completed\<close> is not
  called for that item.
\<close>

theorem hook_isolation_counterexample:
  "get_media_requests demo_pipeline 0 = Inl demo_failure \<and>
   fst (process_item demo_pipeline 0 (new_session ''sp'')) = Some demo_failure \<and>
   dlists (run demo_pipeline [ProcessItem 0] (new_session ''sp'')) = [] \<and>
   completed (run demo_pipeline [ProcessItem 0] (new_session ''sp'')) = []"
  by (simp add: demo_eval)

end
